theory Spec2Isabelle
  imports Main "HOL-Library.Word" "HOL-Library.Monad_Syntax" "HOL-Library.Multiset"
begin

unbundle bit_operations_syntax

section \<open>C strings and platform parameters\<close>

text \<open>
  A C string is modelled by the list of its bytes before the terminating NUL, so a
  well-formed key contains no NUL byte. \<open>strcmp(a, b) == 0\<close> is equality of these lists.

  Two properties of the C implementation are visible in \<open>hash_table.c\<close>:
  \<^item> \<open>unsigned long\<close> is taken to be 64 bits wide (LP64);
  \<^item> whether plain \<open>char\<close> is signed is implementation-defined. It is signed on
    x86-64 and unsigned on AArch64 Linux, so the models below take it as the
    parameter \<open>char_signed\<close>.
\<close>

definition cstring :: "string \<Rightarrow> bool" where
  "cstring s = (CHR 0x00 \<notin> set s)"

definition byte_of :: "char \<Rightarrow> nat" where
  "byte_of ch = of_char ch"

text \<open>The value of the expression \<open>*str\<close> of type \<open>char\<close> after promotion to \<open>int\<close>.\<close>

definition char_to_int :: "bool \<Rightarrow> char \<Rightarrow> int" where
  "char_to_int char_signed ch =
     (if char_signed \<and> 128 \<le> byte_of ch then int (byte_of ch) - 256 else int (byte_of ch))"

section \<open>hash\_table.c: the hash function\<close>

definition TABLE_SIZE :: nat where
  "TABLE_SIZE = 5"

text \<open>
  \<^verbatim>\<open>
  unsigned long hash = 5381;  int c;
  while ( (c = ( *str++ )))
      hash = ((hash << 5) + hash) + c;
  return (hash % TABLE_SIZE);
  \<close>
  The loop ends at the terminating NUL, which is the end of the list (or a NUL byte,
  should the list hold one). The \<open>int\<close> \<open>c\<close> is converted to \<open>unsigned long\<close> for the
  addition, which is \<open>word_of_int\<close>.
\<close>

fun hash_loop :: "bool \<Rightarrow> 64 word \<Rightarrow> string \<Rightarrow> 64 word" where
  "hash_loop char_signed h [] = h"
| "hash_loop char_signed h (ch # str) =
     (let c = char_to_int char_signed ch
      in if c = 0 then h
         else hash_loop char_signed ((push_bit 5 h + h) + word_of_int c) str)"

definition hash :: "bool \<Rightarrow> string \<Rightarrow> 64 word" where
  "hash char_signed str = hash_loop char_signed 5381 str mod of_nat TABLE_SIZE"

text \<open>
  The reference djb2 definition, written from the words of the specification: an
  accumulator seeded at 5381, updated as \<open>accumulator * 33 + byte\<close> for each byte of
  the key, wrapping at 64 bits, and reduced modulo the table size 5.
\<close>

definition djb2_step :: "nat \<Rightarrow> char \<Rightarrow> nat" where
  "djb2_step acc b = (acc * 33 + byte_of b) mod 2 ^ 64"

definition djb2_reference :: "string \<Rightarrow> nat" where
  "djb2_reference key = foldl djb2_step 5381 key mod 5"

text \<open>A key of 7-bit bytes only.\<close>

definition ascii :: "string \<Rightarrow> bool" where
  "ascii key = list_all (\<lambda>ch. byte_of ch < 128) key"

section \<open>trie.c\<close>













section \<open>hash\_table.c: memory\<close>

text \<open>
  Nodes and strings live in one address space. \<open>char *value\<close> is \<open>NULL\<close>, the address
  of the string literal that the global \<open>SENTINEL\<close> points to, or the address of a
  buffer obtained from \<open>malloc\<close>.
\<close>

type_synonym addr = nat

datatype cstr_ptr = SENTINEL_literal | Buffer addr

record node =
  "value" :: "cstr_ptr option"
  prev :: "addr option"
  "next" :: "addr option"

datatype object = Node node | Str string

text \<open>
  The heap: the live blocks, and the allocator. \<open>avail\<close> lists the addresses that
  \<open>malloc\<close> will hand out, in order; \<open>malloc\<close> returns \<open>NULL\<close> when it is empty, and
  \<open>free\<close> gives a block back. An operation whose behaviour is undefined in C (a
  \<open>NULL\<close> or dangling dereference, \<open>free\<close> of a block that is not live) is \<open>None\<close>.
\<close>

record heap =
  mem :: "addr \<rightharpoonup> object"
  avail :: "addr list"

definition SENTINEL :: string where
  "SENTINEL = ''SENTINEL''"

definition malloc :: "heap \<Rightarrow> addr option \<times> heap" where
  "malloc s = (case avail s of [] \<Rightarrow> (None, s) | a # as \<Rightarrow> (Some a, s\<lparr>avail := as\<rparr>))"

definition free :: "heap \<Rightarrow> addr \<Rightarrow> heap option" where
  "free s a =
     (if a \<in> dom (mem s) then Some (s\<lparr>mem := (mem s)(a := None), avail := avail s @ [a]\<rparr>)
      else None)"

definition load_node :: "heap \<Rightarrow> addr \<Rightarrow> node option" where
  "load_node s a = (case mem s a of Some (Node n) \<Rightarrow> Some n | _ \<Rightarrow> None)"

definition store_node :: "heap \<Rightarrow> addr \<Rightarrow> node \<Rightarrow> heap" where
  "store_node s a n = s\<lparr>mem := (mem s)(a \<mapsto> Node n)\<rparr>"

definition load_str :: "heap \<Rightarrow> cstr_ptr option \<Rightarrow> string option" where
  "load_str s p =
     (case p of
        None \<Rightarrow> None
      | Some SENTINEL_literal \<Rightarrow> Some SENTINEL
      | Some (Buffer b) \<Rightarrow> (case mem s b of Some (Str v) \<Rightarrow> Some v | _ \<Rightarrow> None))"

definition store_str :: "heap \<Rightarrow> addr \<Rightarrow> string \<Rightarrow> heap" where
  "store_str s b v = s\<lparr>mem := (mem s)(b \<mapsto> Str v)\<rparr>"

text \<open>The assignments \<open>p->next = q\<close>, \<open>p->prev = q\<close> and \<open>p->value = q\<close>.\<close>

definition set_next :: "heap \<Rightarrow> addr \<Rightarrow> addr option \<Rightarrow> heap option" where
  "set_next s p q = map_option (\<lambda>n. store_node s p (n\<lparr>next := q\<rparr>)) (load_node s p)"

definition set_prev :: "heap \<Rightarrow> addr \<Rightarrow> addr option \<Rightarrow> heap option" where
  "set_prev s p q = map_option (\<lambda>n. store_node s p (n\<lparr>prev := q\<rparr>)) (load_node s p)"

definition set_value :: "heap \<Rightarrow> addr \<Rightarrow> cstr_ptr option \<Rightarrow> heap option" where
  "set_value s p q = map_option (\<lambda>n. store_node s p (n\<lparr>value := q\<rparr>)) (load_node s p)"

text \<open>\<open>free(p->value)\<close>: the literal was not obtained from \<open>malloc\<close>; \<open>free(NULL)\<close> does nothing.\<close>

definition free_str :: "heap \<Rightarrow> cstr_ptr option \<Rightarrow> heap option" where
  "free_str s p =
     (case p of
        None \<Rightarrow> Some s
      | Some SENTINEL_literal \<Rightarrow> None
      | Some (Buffer b) \<Rightarrow> free s b)"

section \<open>hash\_table.c: the list operations\<close>

text \<open>
  A function that returns \<open>bool\<close> returns \<open>Success\<close> for \<open>true\<close>, and for \<open>false\<close> the
  kind of failure that its message reports:
  \<^item> \<open>AllocationError\<close>: "Failed to allocate memory for a new node.";
  \<^item> \<open>InvalidValueError\<close>: "Cannot manually insert sentinel value into list.";
  \<^item> \<open>InvalidOperationError\<close>: "Cannot manually remove sentinel value in list.";
  \<^item> \<open>NotFound\<close>: "There is no entry containing that value.", printed by \<open>main\<close>
    when \<open>find_entry\<close> returned \<open>NULL\<close>.

  The result of an operation is \<open>None\<close> where the behaviour of the C program is
  undefined, or where a loop does not end.
\<close>

datatype error = AllocationError | InvalidValueError | InvalidOperationError | NotFound

datatype result = Success | Failure error

definition create_list :: "heap \<Rightarrow> addr option \<times> heap" where
  "create_list s =
     (case malloc s of
        (None, s1) \<Rightarrow> (None, s1)
      | (Some new_list, s1) \<Rightarrow>
          (Some new_list,
           store_node s1 new_list \<lparr>value = Some SENTINEL_literal, prev = None, next = None\<rparr>))"

text \<open>
  \<open>insert_entry\<close> does not check the second \<open>malloc\<close>: if it fails, \<open>strcpy\<close> writes
  through \<open>NULL\<close>.
\<close>

definition insert_entry :: "heap \<Rightarrow> addr \<Rightarrow> string \<Rightarrow> (result \<times> heap) option" where
  "insert_entry s list_head v =
     (if v = SENTINEL then Some (Failure InvalidValueError, s)
      else
        (case malloc s of
           (None, s1) \<Rightarrow> Some (Failure AllocationError, s1)
         | (Some new_entry, s1) \<Rightarrow>
             (case malloc s1 of
                (None, s2) \<Rightarrow> None
              | (Some new_string, s2) \<Rightarrow>
                  do {
                    let s3 = store_str s2 new_string v;
                    head \<leftarrow> load_node s3 list_head;
                    let s4 = store_node s3 new_entry
                               \<lparr>value = Some (Buffer new_string), prev = Some list_head,
                                  next = next head\<rparr>;
                    e \<leftarrow> load_node s4 new_entry;
                    s5 \<leftarrow> (case next e of
                             None \<Rightarrow> Some s4
                           | Some n \<Rightarrow> set_prev s4 n (Some new_entry));
                    s6 \<leftarrow> set_next s5 list_head (Some new_entry);
                    Some (Success, s6)
                  })))"

text \<open>The loop of \<open>find_entry\<close>; it does not return on a cyclic list.\<close>

partial_function (option) find_loop :: "heap \<Rightarrow> addr option \<Rightarrow> string \<Rightarrow> addr option option" where
  "find_loop s list_head v =
     (case list_head of
        None \<Rightarrow> Some None
      | Some a \<Rightarrow>
          do {
            n \<leftarrow> load_node s a;
            str \<leftarrow> load_str s (value n);
            if str = v then Some (Some a) else find_loop s (next n) v
          })"

definition find_entry :: "heap \<Rightarrow> addr option \<Rightarrow> string \<Rightarrow> addr option option" where
  "find_entry s list_head v = (if v = SENTINEL then Some None else find_loop s list_head v)"

definition remove_entry :: "heap \<Rightarrow> addr \<Rightarrow> (result \<times> heap) option" where
  "remove_entry s entry =
     do {
       e \<leftarrow> load_node s entry;
       str \<leftarrow> load_str s (value e);
       if str = SENTINEL then Some (Failure InvalidOperationError, s)
       else
         do {
           p \<leftarrow> prev e;
           s1 \<leftarrow> set_next s p (next e);
           e1 \<leftarrow> load_node s1 entry;
           s2 \<leftarrow> (case next e1 of
                    None \<Rightarrow> Some s1
                  | Some n \<Rightarrow> set_prev s1 n (prev e1));
           e2 \<leftarrow> load_node s2 entry;
           s3 \<leftarrow> free_str s2 (value e2);
           s4 \<leftarrow> set_value s3 entry None;
           s5 \<leftarrow> free s4 entry;
           Some (Success, s5)
         }
     }"

text \<open>
  \<open>print_list\<close>: the text written to standard output.
\<close>

partial_function (option) print_loop :: "heap \<Rightarrow> addr option \<Rightarrow> string option" where
  "print_loop s list_head =
     (case list_head of
        None \<Rightarrow> Some []
      | Some a \<Rightarrow>
          do {
            n \<leftarrow> load_node s a;
            str \<leftarrow> load_str s (value n);
            rest \<leftarrow> print_loop s (next n);
            Some ((if str \<noteq> SENTINEL then str @ '' '' else []) @ rest)
          })"

definition print_list :: "heap \<Rightarrow> addr \<Rightarrow> string option" where
  "print_list s list_head =
     do {
       n \<leftarrow> load_node s list_head;
       if next n = None then Some (''Empty list.'' @ [CHR 0x0A])
       else do { out \<leftarrow> print_loop s (Some list_head); Some (out @ [CHR 0x0A]) }
     }"

section \<open>hash\_table.c: the table operations of main\<close>

text \<open>
  \<open>main\<close> holds the table, an array of \<open>TABLE_SIZE\<close> list heads, and works on it in
  three loops. Their bodies are the table operations: create the buckets, insert a
  name, and find a name and remove the entry found.
\<close>

fun create_buckets :: "nat \<Rightarrow> heap \<Rightarrow> addr list option \<times> heap" where
  "create_buckets 0 s = (Some [], s)"
| "create_buckets (Suc n) s =
     (case create_list s of
        (None, s1) \<Rightarrow> (None, s1)
      | (Some a, s1) \<Rightarrow>
          (case create_buckets n s1 of
             (None, s2) \<Rightarrow> (None, s2)
           | (Some as, s2) \<Rightarrow> (Some (a # as), s2)))"

definition create_table :: "heap \<Rightarrow> addr list option \<times> heap" where
  "create_table s = create_buckets TABLE_SIZE s"

definition table_insert :: "bool \<Rightarrow> heap \<Rightarrow> addr list \<Rightarrow> string \<Rightarrow> (result \<times> heap) option" where
  "table_insert char_signed s table name =
     (let index = unat (hash char_signed name)
      in if index < length table then insert_entry s (table ! index) name else None)"

definition table_find :: "bool \<Rightarrow> heap \<Rightarrow> addr list \<Rightarrow> string \<Rightarrow> addr option option" where
  "table_find char_signed s table name =
     (let index = unat (hash char_signed name)
      in if index < length table then find_entry s (Some (table ! index)) name else None)"

definition table_remove :: "bool \<Rightarrow> heap \<Rightarrow> addr list \<Rightarrow> string \<Rightarrow> (result \<times> heap) option" where
  "table_remove char_signed s table name =
     do {
       element \<leftarrow> table_find char_signed s table name;
       case element of
         Some entry \<Rightarrow> remove_entry s entry
       | None \<Rightarrow> Some (Failure NotFound, s)
     }"

text \<open>The text of \<open>printf("%d = ", i)\<close> followed by \<open>print_list(table[i])\<close>, for each bucket in order.\<close>

fun decimal :: "nat \<Rightarrow> string" where
  "decimal n =
     (if n < 10 then [char_of (48 + n)] else decimal (n div 10) @ [char_of (48 + n mod 10)])"

fun print_buckets :: "heap \<Rightarrow> addr list \<Rightarrow> nat \<Rightarrow> string option" where
  "print_buckets s [] i = Some []"
| "print_buckets s (list_head # table) i =
     do {
       out \<leftarrow> print_list s list_head;
       rest \<leftarrow> print_buckets s table (Suc i);
       Some (decimal i @ '' = '' @ out @ rest)
     }"

definition table_print :: "heap \<Rightarrow> addr list \<Rightarrow> string option" where
  "table_print s table = print_buckets s table 0"

section \<open>hash\_table.c: well-formed lists and tables\<close>

text \<open>
  A bucket is described by its cells, in list order: the address of each node after
  the sentinel, the address of its string buffer, and the string.
\<close>

type_synonym cell = "addr \<times> addr \<times> string"

fun first_cell :: "cell list \<Rightarrow> addr option" where
  "first_cell [] = None"
| "first_cell ((a, b, v) # cs) = Some a"

fun chain :: "heap \<Rightarrow> addr option \<Rightarrow> cell list \<Rightarrow> bool" where
  "chain s pr [] = True"
| "chain s pr ((a, b, v) # cs) =
     (mem s a = Some (Node \<lparr>value = Some (Buffer b), prev = pr, next = first_cell cs\<rparr>) \<and>
      mem s b = Some (Str v) \<and> v \<noteq> SENTINEL \<and> chain s (Some a) cs)"

definition bucket :: "heap \<Rightarrow> addr \<Rightarrow> cell list \<Rightarrow> bool" where
  "bucket s h cs =
     (mem s h = Some (Node \<lparr>value = Some SENTINEL_literal, prev = None, next = first_cell cs\<rparr>) \<and>
      chain s (Some h) cs)"

definition cell_addrs :: "cell list \<Rightarrow> addr list" where
  "cell_addrs cs = concat (map (\<lambda>(a, b, v). [a, b]) cs)"

definition cell_values :: "cell list \<Rightarrow> string list" where
  "cell_values cs = map (\<lambda>(a, b, v). v) cs"

definition table_addrs :: "addr list \<Rightarrow> cell list list \<Rightarrow> addr list" where
  "table_addrs table css = table @ concat (map cell_addrs css)"

definition table_inv :: "heap \<Rightarrow> addr list \<Rightarrow> cell list list \<Rightarrow> bool" where
  "table_inv s table css =
     (length table = TABLE_SIZE \<and> list_all2 (bucket s) table css \<and>
      distinct (table_addrs table css @ avail s) \<and>
      dom (mem s) = set (table_addrs table css))"

definition keys_placed :: "bool \<Rightarrow> cell list list \<Rightarrow> bool" where
  "keys_placed char_signed css =
     list_all (\<lambda>(i, cs). list_all (\<lambda>v. unat (hash char_signed v) = i) (cell_values cs))
       (zip [0..<length css] css)"

text \<open>The values stored in a list after its sentinel, read by following \<open>next\<close>.\<close>

partial_function (option) values_from :: "heap \<Rightarrow> addr option \<Rightarrow> string list option" where
  "values_from s p =
     (case p of
        None \<Rightarrow> Some []
      | Some a \<Rightarrow>
          do {
            n \<leftarrow> load_node s a;
            str \<leftarrow> load_str s (value n);
            rest \<leftarrow> values_from s (next n);
            Some (str # rest)
          })"

definition list_values :: "heap \<Rightarrow> addr \<Rightarrow> string list option" where
  "list_values s list_head = do { n \<leftarrow> load_node s list_head; values_from s (next n) }"

text \<open>The states of the program: the table as created, then any sequence of table operations.\<close>

inductive reachable :: "bool \<Rightarrow> heap \<Rightarrow> addr list \<Rightarrow> bool" for char_signed where
  created:
    "distinct addresses \<Longrightarrow>
     create_table \<lparr>mem = Map.empty, avail = addresses\<rparr> = (Some table, s) \<Longrightarrow>
     reachable char_signed s table"
| inserted:
    "reachable char_signed s table \<Longrightarrow> table_insert char_signed s table name = Some (r, s') \<Longrightarrow>
     reachable char_signed s' table"
| removed:
    "reachable char_signed s table \<Longrightarrow> table_remove char_signed s table name = Some (r, s') \<Longrightarrow>
     reachable char_signed s' table"
| found:
    "reachable char_signed s table \<Longrightarrow> table_find char_signed s table name = Some p \<Longrightarrow>
     reachable char_signed s table"
| printed:
    "reachable char_signed s table \<Longrightarrow> table_print s table = Some out \<Longrightarrow>
     reachable char_signed s table"

text \<open>The string that the node at an address holds.\<close>

definition node_string :: "heap \<Rightarrow> addr \<Rightarrow> string option" where
  "node_string s a = do { n \<leftarrow> load_node s a; load_str s (value n) }"

text \<open>The nodes of a list, sentinel included, read by following \<open>next\<close> from its head.\<close>

partial_function (option) nodes_from :: "heap \<Rightarrow> addr option \<Rightarrow> addr list option" where
  "nodes_from s p =
     (case p of
        None \<Rightarrow> Some []
      | Some a \<Rightarrow>
          do {
            n \<leftarrow> load_node s a;
            rest \<leftarrow> nodes_from s (next n);
            Some (a # rest)
          })"

definition list_nodes :: "heap \<Rightarrow> addr \<Rightarrow> addr list option" where
  "list_nodes s list_head = nodes_from s (Some list_head)"

text \<open>
  A single well-formed list: its cells and the blocks the allocator will hand out
  are pairwise different, and no block that is still available is live.
\<close>

definition list_inv :: "heap \<Rightarrow> addr \<Rightarrow> cell list \<Rightarrow> bool" where
  "list_inv s h cs =
     (bucket s h cs \<and> distinct (h # cell_addrs cs @ avail s) \<and>
      list_all (\<lambda>x. mem s x = None) (avail s))"

text \<open>A sequence of insertions into the table, each of which succeeds.\<close>

fun insert_keys :: "bool \<Rightarrow> heap \<Rightarrow> addr list \<Rightarrow> string list \<Rightarrow> heap option" where
  "insert_keys char_signed s table [] = Some s"
| "insert_keys char_signed s table (k # ks) =
     (case table_insert char_signed s table k of
        Some (Success, s') \<Rightarrow> insert_keys char_signed s' table ks
      | _ \<Rightarrow> None)"

text \<open>A table as \<open>main\<close> creates it, with room for four more allocations.\<close>

definition example_table :: "addr list" where
  "example_table = [0, 1, 2, 3, 4]"

definition example_heap :: heap where
  "example_heap = snd (create_table \<lparr>mem = Map.empty, avail = [0, 1, 2, 3, 4, 5, 6, 7, 8]\<rparr>)"

section \<open>doubly-linked-list.c\<close>

text \<open>
  The plain list stores an \<open>int\<close> in the node itself; its sentinel value is
  \<open>INT_MAX\<close>. \<open>free(NULL)\<close> does nothing.
\<close>

definition INT_MAX :: int where
  "INT_MAX = 2147483647"

definition dll_SENTINEL :: int where
  "dll_SENTINEL = INT_MAX"

record dll_node =
  dll_value :: int
  dll_prev :: "addr option"
  dll_next :: "addr option"

record dll_heap =
  dll_mem :: "addr \<rightharpoonup> dll_node"
  dll_avail :: "addr list"

definition dll_malloc :: "dll_heap \<Rightarrow> addr option \<times> dll_heap" where
  "dll_malloc s =
     (case dll_avail s of [] \<Rightarrow> (None, s) | a # as \<Rightarrow> (Some a, s\<lparr>dll_avail := as\<rparr>))"

definition dll_free :: "dll_heap \<Rightarrow> addr option \<Rightarrow> dll_heap option" where
  "dll_free s p =
     (case p of
        None \<Rightarrow> Some s
      | Some a \<Rightarrow>
          (if a \<in> dom (dll_mem s)
           then Some (s\<lparr>dll_mem := (dll_mem s)(a := None), dll_avail := dll_avail s @ [a]\<rparr>)
           else None))"

definition dll_store :: "dll_heap \<Rightarrow> addr \<Rightarrow> dll_node \<Rightarrow> dll_heap" where
  "dll_store s a n = s\<lparr>dll_mem := (dll_mem s)(a \<mapsto> n)\<rparr>"

definition dll_create_list :: "dll_heap \<Rightarrow> addr option \<times> dll_heap" where
  "dll_create_list s =
     (case dll_malloc s of
        (None, s1) \<Rightarrow> (None, s1)
      | (Some new_list, s1) \<Rightarrow>
          (Some new_list,
           dll_store s1 new_list \<lparr>dll_value = dll_SENTINEL, dll_prev = None, dll_next = None\<rparr>))"

definition dll_insert_entry :: "dll_heap \<Rightarrow> addr \<Rightarrow> int \<Rightarrow> (bool \<times> dll_heap) option" where
  "dll_insert_entry s list_head v =
     (if v = dll_SENTINEL then Some (False, s)
      else
        (case dll_malloc s of
           (None, s1) \<Rightarrow> Some (False, s1)
         | (Some new_entry, s1) \<Rightarrow>
             do {
               head \<leftarrow> dll_mem s1 list_head;
               let s2 = dll_store s1 new_entry
                          \<lparr>dll_value = v, dll_prev = Some list_head, dll_next = dll_next head\<rparr>;
               e \<leftarrow> dll_mem s2 new_entry;
               s3 \<leftarrow> (case dll_next e of
                        None \<Rightarrow> Some s2
                      | Some n \<Rightarrow>
                          map_option (\<lambda>m. dll_store s2 n (m\<lparr>dll_prev := Some new_entry\<rparr>))
                            (dll_mem s2 n));
               head' \<leftarrow> dll_mem s3 list_head;
               Some (True, dll_store s3 list_head (head'\<lparr>dll_next := Some new_entry\<rparr>))
             }))"

partial_function (option) dll_find_loop :: "dll_heap \<Rightarrow> addr option \<Rightarrow> int \<Rightarrow> addr option option" where
  "dll_find_loop s list_head v =
     (case list_head of
        None \<Rightarrow> Some None
      | Some a \<Rightarrow>
          do {
            n \<leftarrow> dll_mem s a;
            if dll_value n = v then Some (Some a) else dll_find_loop s (dll_next n) v
          })"

definition dll_find_entry :: "dll_heap \<Rightarrow> addr option \<Rightarrow> int \<Rightarrow> addr option option" where
  "dll_find_entry s list_head v =
     (if v = dll_SENTINEL then Some None else dll_find_loop s list_head v)"

text \<open>
  \<^verbatim>\<open>
  entry->prev->next = entry->next;
  if (entry->next != NULL)
      entry->next->prev = entry->prev;
  entry = NULL;
  free(entry);
  return true;
  \<close>
  The pointer handed to \<open>free\<close> is the value of \<open>entry\<close> after the assignment.
\<close>

definition dll_remove_entry :: "dll_heap \<Rightarrow> addr \<Rightarrow> (bool \<times> dll_heap) option" where
  "dll_remove_entry s entry =
     do {
       e \<leftarrow> dll_mem s entry;
       if dll_value e = dll_SENTINEL then Some (False, s)
       else
         do {
           p \<leftarrow> dll_prev e;
           pn \<leftarrow> dll_mem s p;
           let s1 = dll_store s p (pn\<lparr>dll_next := dll_next e\<rparr>);
           e1 \<leftarrow> dll_mem s1 entry;
           s2 \<leftarrow> (case dll_next e1 of
                    None \<Rightarrow> Some s1
                  | Some n \<Rightarrow>
                      map_option (\<lambda>m. dll_store s1 n (m\<lparr>dll_prev := dll_prev e1\<rparr>))
                        (dll_mem s1 n));
           let entry' = (None :: addr option);
           s3 \<leftarrow> dll_free s2 entry';
           Some (True, s3)
         }
     }"

text \<open>The plain list as \<open>main\<close> creates it, and after the insertion of 7.\<close>

definition dll_example_0 :: dll_heap where
  "dll_example_0 = snd (dll_create_list \<lparr>dll_mem = Map.empty, dll_avail = [0, 1, 2]\<rparr>)"

definition dll_example_1 :: dll_heap where
  "dll_example_1 = snd (the (dll_insert_entry dll_example_0 0 7))"

section \<open>Properties of the hash function\<close>

lemma hash_step_word: "(push_bit 5 h + h) + w = h * 33 + (w :: 64 word)"
  by (simp add: push_bit_eq_mult)

lemma byte_of_nonzero: "ch \<noteq> CHR 0x00 \<Longrightarrow> 0 < byte_of ch"
  using of_char_eq_iff[of ch "CHR 0x00", where ?'a = nat] by (simp add: byte_of_def)

lemma unat_hash_step:
  assumes "\<not> cs \<or> byte_of ch < 128"
  shows "unat ((push_bit 5 h + h) + word_of_int (char_to_int cs ch) :: 64 word)
         = djb2_step (unat h) ch"
proof -
  have c: "char_to_int cs ch = int (byte_of ch)"
    using assms by (auto simp: char_to_int_def)
  have "(push_bit 5 h + h) + word_of_int (char_to_int cs ch)
        = h * 33 + (of_nat (byte_of ch) :: 64 word)"
    by (simp add: hash_step_word c)
  moreover have "unat (h * 33 + (of_nat (byte_of ch) :: 64 word))
                 = (unat h * 33 + byte_of ch) mod 2 ^ 64"
    by (simp add: unat_word_ariths unat_of_nat mod_simps)
  ultimately show ?thesis by (simp only: djb2_step_def)
qed

lemma hash_loop_refines:
  assumes "\<not> cs \<or> ascii key" and "cstring key"
  shows "unat (hash_loop cs h key) = foldl djb2_step (unat h) key"
  using assms
proof (induction key arbitrary: h)
  case Nil
  then show ?case by simp
next
  case (Cons ch key)
  have nz: "char_to_int cs ch \<noteq> 0"
    using Cons.prems byte_of_nonzero[of ch] by (auto simp: char_to_int_def cstring_def ascii_def)
  have st: "unat ((push_bit 5 h + h) + word_of_int (char_to_int cs ch) :: 64 word)
            = djb2_step (unat h) ch"
    using Cons.prems by (intro unat_hash_step) (auto simp: ascii_def)
  have "unat (hash_loop cs ((push_bit 5 h + h) + word_of_int (char_to_int cs ch)) key)
        = foldl djb2_step (unat ((push_bit 5 h + h) + word_of_int (char_to_int cs ch) :: 64 word)) key"
    using Cons.prems by (intro Cons.IH) (auto simp: ascii_def cstring_def)
  then show ?case
    using nz st by (simp add: Let_def)
qed

lemma hash_less_TABLE_SIZE: "unat (hash cs key) < TABLE_SIZE"
  by (simp add: hash_def TABLE_SIZE_def unat_mod)

text \<open>
  Claim C2, as amended. For every key of 7-bit bytes, and for every key at all where
  plain \<open>char\<close> is unsigned, \<open>hash\<close> computes the reference djb2 value: accumulator
  seeded at 5381, \<open>accumulator * 33 + byte\<close> per byte wrapping at 64 bits, reduced
  modulo 5. For every key on either platform the result is a valid bucket index (less
  than 5); being a function of the key alone, \<open>hash\<close> is pure and deterministic.
\<close>

theorem hash_refines_djb2:
  "unat (hash char_signed key) < 5 \<and>
   (cstring key \<and> (\<not> char_signed \<or> ascii key) \<longrightarrow>
      unat (hash char_signed key) = djb2_reference key)"
proof -
  have "unat (hash char_signed key) = djb2_reference key"
    if "cstring key" and "\<not> char_signed \<or> ascii key"
    using hash_loop_refines[OF that(2) that(1), of 5381]
    by (simp add: hash_def TABLE_SIZE_def unat_mod djb2_reference_def)
  then show ?thesis
    using hash_less_TABLE_SIZE[of char_signed key] by (simp add: TABLE_SIZE_def)
qed

theorem hash_refines_djb2_witness:
  "cstring ''alice'' \<and> ascii ''alice'' \<and> unat (hash True ''alice'') = 4 \<and>
   djb2_reference ''alice'' = 4"
proof -
  have c: "cstring ''alice''" by (simp add: cstring_def)
  have a: "ascii ''alice''" by (simp add: ascii_def byte_of_def)
  have d: "djb2_reference ''alice'' = 4"
    by (simp add: djb2_reference_def djb2_step_def byte_of_def)
  show ?thesis
    using hash_refines_djb2[of True "''alice''"] c a d by simp
qed

text \<open>
  Claim C2 as stated fails where plain \<open>char\<close> is signed: for the two bytes of the
  UTF-8 encoding of "e acute" the code adds \<open>byte - 256\<close> and selects bucket 4, while
  the reference definition selects bucket 3.
\<close>

theorem hash_signed_char_counterexample:
  "unat (hash True [CHR 0xC3, CHR 0xA9]) \<noteq> djb2_reference [CHR 0xC3, CHR 0xA9]"
proof -
  have "unat (hash True [CHR 0xC3, CHR 0xA9]) = 4"
    by (simp add: hash_def char_to_int_def TABLE_SIZE_def byte_of_def)
  moreover have "djb2_reference [CHR 0xC3, CHR 0xA9] = 3"
    by (simp add: djb2_reference_def djb2_step_def byte_of_def)
  ultimately show ?thesis by simp
qed

section \<open>Properties of the trie\<close>

















section \<open>Properties of the hash table\<close>

subsection \<open>Lists in the heap\<close>

lemma chain_frame:
  "chain s pr cs \<Longrightarrow> (\<And>x. x \<in> set (cell_addrs cs) \<Longrightarrow> mem s' x = mem s x) \<Longrightarrow> chain s' pr cs"
  by (induction cs arbitrary: pr) (auto simp: cell_addrs_def)

lemma find_loop_chain:
  "chain s pr cs \<Longrightarrow>
   find_loop s (first_cell cs) v = Some (map_option fst (List.find (\<lambda>(a, b, w). w = v) cs))"
proof (induction cs arbitrary: pr)
  case Nil
  then show ?case by (simp add: find_loop.simps)
next
  case (Cons c cs)
  obtain a b w where c: "c = (a, b, w)" by (cases c)
  from Cons.prems have "chain s (Some a) cs" by (simp add: c)
  from Cons.IH[OF this] Cons.prems show ?case
    by (subst find_loop.simps) (simp add: c load_node_def load_str_def)
qed

lemma values_from_chain:
  "chain s pr cs \<Longrightarrow> values_from s (first_cell cs) = Some (cell_values cs)"
proof (induction cs arbitrary: pr)
  case Nil
  then show ?case by (simp add: values_from.simps cell_values_def)
next
  case (Cons c cs)
  obtain a b w where c: "c = (a, b, w)" by (cases c)
  from Cons.prems have "chain s (Some a) cs" by (simp add: c)
  from Cons.IH[OF this] Cons.prems show ?case
    by (subst values_from.simps) (simp add: c load_node_def load_str_def cell_values_def)
qed

lemma chain_no_sentinel: "chain s pr cs \<Longrightarrow> SENTINEL \<notin> set (cell_values cs)"
proof (induction cs arbitrary: pr)
  case Nil
  then show ?case by (simp add: cell_values_def)
next
  case (Cons c cs)
  obtain a b w where c: "c = (a, b, w)" by (cases c)
  from Cons.prems have "chain s (Some a) cs" "w \<noteq> SENTINEL" by (simp_all add: c)
  with Cons.IH[of "Some a"] show ?case by (simp add: c cell_values_def)
qed

lemma find_None_iff: "List.find (\<lambda>(a, b, w). w = v) cs = None \<longleftrightarrow> v \<notin> set (cell_values cs)"
  by (induction cs) (auto simp: cell_values_def)

lemma find_entry_bucket:
  assumes "bucket s h cs"
  shows "find_entry s (Some h) v = Some (map_option fst (List.find (\<lambda>(a, b, w). w = v) cs))"
proof (cases "v = SENTINEL")
  case True
  then have "List.find (\<lambda>(a, b, w). w = v) cs = None"
    using assms chain_no_sentinel[of s "Some h" cs] by (simp add: find_None_iff bucket_def)
  then show ?thesis using True by (simp add: find_entry_def)
next
  case False
  have "find_loop s (Some h) v = find_loop s (first_cell cs) v"
    using assms False by (subst find_loop.simps) (auto simp: bucket_def load_node_def load_str_def)
  then show ?thesis
    using assms False find_loop_chain[of s "Some h" cs v] by (simp add: find_entry_def bucket_def)
qed

lemma list_values_bucket: "bucket s h cs \<Longrightarrow> list_values s h = Some (cell_values cs)"
  using values_from_chain[of s "Some h" cs]
  by (simp add: list_values_def bucket_def load_node_def)

subsection \<open>insert\_entry on a well-formed list\<close>

lemma cell_addrs_Nil: "cell_addrs [] = []"
  by (simp add: cell_addrs_def)

lemma cell_addrs_Cons: "cell_addrs ((a, b, v) # cs) = a # b # cell_addrs cs"
  by (simp add: cell_addrs_def)

lemma cell_addrs_append: "cell_addrs (cs @ ds) = cell_addrs cs @ cell_addrs ds"
  by (simp add: cell_addrs_def)

lemma chain_dom: "chain s pr cs \<Longrightarrow> set (cell_addrs cs) \<subseteq> dom (mem s)"
proof (induction cs arbitrary: pr)
  case Nil
  then show ?case by (simp add: cell_addrs_Nil)
next
  case (Cons c cs)
  obtain a b w where c: "c = (a, b, w)" by (cases c)
  from Cons.prems have "chain s (Some a) cs" "a \<in> dom (mem s)" "b \<in> dom (mem s)"
    by (auto simp: c)
  with Cons.IH[of "Some a"] show ?case by (simp add: c cell_addrs_Cons)
qed

lemma insert_entry_rejects: "insert_entry s h SENTINEL = Some (Failure InvalidValueError, s)"
  by (simp add: insert_entry_def)

lemma insert_entry_bucket:
  assumes bk: "bucket s h cs"
      and av: "avail s = a # b # rest"
      and fresh: "a \<notin> dom (mem s)" "b \<notin> dom (mem s)" "a \<noteq> b"
      and d: "distinct (h # cell_addrs cs)"
      and v: "v \<noteq> SENTINEL"
  shows "\<exists>s'. insert_entry s h v = Some (Success, s') \<and> bucket s' h ((a, b, v) # cs) \<and>
           avail s' = rest \<and> dom (mem s') = insert a (insert b (dom (mem s))) \<and>
           (\<forall>x. x \<notin> {h, a, b} \<union> set (cell_addrs cs) \<longrightarrow> mem s' x = mem s x)"
proof -
  have h: "mem s h = Some (Node \<lparr>value = Some SENTINEL_literal, prev = None, next = first_cell cs\<rparr>)"
    and ch: "chain s (Some h) cs"
    using bk by (simp_all add: bucket_def)
  have ne: "h \<noteq> a" "h \<noteq> b" using h fresh by auto
  show ?thesis
  proof (cases cs)
    case Nil
    let ?s' = "s\<lparr>mem := (mem s)(b \<mapsto> Str v,
                  a \<mapsto> Node \<lparr>value = Some (Buffer b), prev = Some h, next = None\<rparr>,
                  h \<mapsto> Node \<lparr>value = Some SENTINEL_literal, prev = None, next = Some a\<rparr>),
                avail := rest\<rparr>"
    have "insert_entry s h v = Some (Success, ?s')"
      using h av v ne fresh(3) Nil
      by (simp add: insert_entry_def malloc_def store_str_def store_node_def load_node_def
          set_next_def set_prev_def)
    moreover have "bucket ?s' h ((a, b, v) # cs)"
      using Nil ne fresh(3) v by (simp add: bucket_def)
    moreover have "dom (mem ?s') = insert a (insert b (dom (mem s)))"
      using h by auto
    ultimately show ?thesis by (intro exI[of _ ?s']) simp
  next
    case (Cons c' cs')
    obtain c e w where c': "c' = (c, e, w)" by (cases c')
    have c: "mem s c = Some (Node \<lparr>value = Some (Buffer e), prev = Some h, next = first_cell cs'\<rparr>)"
      and e: "mem s e = Some (Str w)" and w: "w \<noteq> SENTINEL" and ch': "chain s (Some c) cs'"
      using ch by (simp_all add: Cons c')
    have nc: "c \<noteq> a" "c \<noteq> b" "e \<noteq> a" "e \<noteq> b" using c e fresh by auto
    have dc: "c \<noteq> h" "e \<noteq> h" "c \<noteq> e" "c \<notin> set (cell_addrs cs')" "h \<notin> set (cell_addrs cs')"
      using d by (auto simp: Cons c' cell_addrs_def)
    let ?s' = "s\<lparr>mem := (mem s)(b \<mapsto> Str v,
                  a \<mapsto> Node \<lparr>value = Some (Buffer b), prev = Some h, next = Some c\<rparr>,
                  c \<mapsto> Node \<lparr>value = Some (Buffer e), prev = Some a, next = first_cell cs'\<rparr>,
                  h \<mapsto> Node \<lparr>value = Some SENTINEL_literal, prev = None, next = Some a\<rparr>),
                avail := rest\<rparr>"
    have "insert_entry s h v = Some (Success, ?s')"
      using h c av v ne nc dc fresh(3) Cons c'
      by (simp add: insert_entry_def malloc_def store_str_def store_node_def load_node_def
          set_next_def set_prev_def)
    moreover have "chain ?s' (Some c) cs'"
    proof (rule chain_frame[OF ch'])
      fix x assume x: "x \<in> set (cell_addrs cs')"
      then have "x \<in> dom (mem s)" using chain_dom[OF ch'] by auto
      then have "x \<noteq> a" "x \<noteq> b" using fresh by auto
      moreover have "x \<noteq> c" "x \<noteq> h" using x dc by auto
      ultimately show "mem ?s' x = mem s x" by simp
    qed
    then have "bucket ?s' h ((a, b, v) # cs)"
      using ne nc dc fresh(3) v e w by (simp add: bucket_def Cons c')
    moreover have "dom (mem ?s') = insert a (insert b (dom (mem s)))"
      using h c by auto
    moreover have "\<forall>x. x \<notin> {h, a, b} \<union> set (cell_addrs cs) \<longrightarrow> mem ?s' x = mem s x"
      by (simp add: Cons c' cell_addrs_def)
    ultimately show ?thesis by (intro exI[of _ ?s']) simp
  qed
qed

subsection \<open>remove\_entry on a well-formed list\<close>

lemma remove_entry_first:
  assumes x: "mem s x = Some (Node nx)"
      and ch: "chain s (Some x) ((e, b, v) # post)"
      and d: "distinct (x # cell_addrs ((e, b, v) # post))"
  shows "\<exists>s'. remove_entry s e = Some (Success, s') \<and>
           mem s' x = Some (Node (nx\<lparr>next := first_cell post\<rparr>)) \<and>
           chain s' (Some x) post \<and> avail s' = avail s @ [b, e] \<and>
           dom (mem s') = dom (mem s) - {e, b} \<and>
           (\<forall>y. y \<notin> {x} \<union> set (cell_addrs ((e, b, v) # post)) \<longrightarrow> mem s' y = mem s y)"
proof -
  have e: "mem s e = Some (Node \<lparr>value = Some (Buffer b), prev = Some x, next = first_cell post\<rparr>)"
    and b: "mem s b = Some (Str v)" and v: "v \<noteq> SENTINEL" and ch': "chain s (Some e) post"
    using ch by simp_all
  have ne: "x \<noteq> e" "x \<noteq> b" "e \<noteq> b" "x \<notin> set (cell_addrs post)" "e \<notin> set (cell_addrs post)"
    "b \<notin> set (cell_addrs post)"
    using d by (auto simp: cell_addrs_Cons)
  show ?thesis
  proof (cases post)
    case Nil
    let ?s' = "s\<lparr>mem := (mem s)(x \<mapsto> Node (nx\<lparr>next := None\<rparr>), b := None, e := None),
                avail := avail s @ [b, e]\<rparr>"
    have "remove_entry s e = Some (Success, ?s')"
      using x e b v ne Nil
      by (simp add: remove_entry_def load_node_def load_str_def set_next_def set_prev_def
          set_value_def store_node_def free_str_def free_def dom_def)
    moreover have "dom (mem ?s') = dom (mem s) - {e, b}"
      using x by auto
    ultimately show ?thesis using Nil ne by (intro exI[of _ ?s']) (simp add: cell_addrs_Cons)
  next
    case (Cons c' post')
    obtain c g w where c': "c' = (c, g, w)" by (cases c')
    have c: "mem s c = Some (Node \<lparr>value = Some (Buffer g), prev = Some e, next = first_cell post'\<rparr>)"
      and g: "mem s g = Some (Str w)" and w: "w \<noteq> SENTINEL" and ch'': "chain s (Some c) post'"
      using ch' by (simp_all add: Cons c')
    have nc: "c \<noteq> x" "c \<noteq> e" "c \<noteq> b" "g \<noteq> x" "g \<noteq> e" "g \<noteq> b" "c \<noteq> g"
      "c \<notin> set (cell_addrs post')"
      using d by (auto simp: Cons c' cell_addrs_Cons)
    let ?s' = "s\<lparr>mem := (mem s)(x \<mapsto> Node (nx\<lparr>next := Some c\<rparr>),
                  c \<mapsto> Node \<lparr>value = Some (Buffer g), prev = Some x, next = first_cell post'\<rparr>,
                  b := None, e := None),
                avail := avail s @ [b, e]\<rparr>"
    have "remove_entry s e = Some (Success, ?s')"
      using x e b v c ne nc Cons c'
      by (simp add: remove_entry_def load_node_def load_str_def set_next_def set_prev_def
          set_value_def store_node_def free_str_def free_def dom_def)
    moreover have "chain ?s' (Some c) post'"
    proof (rule chain_frame[OF ch''])
      fix y assume y: "y \<in> set (cell_addrs post')"
      then have "y \<noteq> x" "y \<noteq> e" "y \<noteq> b" "y \<noteq> c"
        using ne nc by (auto simp: Cons c' cell_addrs_Cons)
      then show "mem ?s' y = mem s y" by simp
    qed
    then have "chain ?s' (Some x) post"
      using nc g w by (simp add: Cons c')
    moreover have "dom (mem ?s') = dom (mem s) - {e, b}"
      using x c by auto
    moreover have "\<forall>y. y \<notin> {x} \<union> set (cell_addrs ((e, b, v) # post)) \<longrightarrow> mem ?s' y = mem s y"
      by (simp add: Cons c' cell_addrs_Cons)
    ultimately show ?thesis using Cons c' nc ne by (intro exI[of _ ?s']) simp
  qed
qed

lemma remove_entry_chain:
  assumes "mem s x = Some (Node nx)"
      and "next nx = first_cell (pre @ (e, b, v) # post)"
      and "chain s (Some x) (pre @ (e, b, v) # post)"
      and "distinct (x # cell_addrs (pre @ (e, b, v) # post))"
  shows "\<exists>s'. remove_entry s e = Some (Success, s') \<and>
           mem s' x = Some (Node (nx\<lparr>next := first_cell (pre @ post)\<rparr>)) \<and>
           chain s' (Some x) (pre @ post) \<and> avail s' = avail s @ [b, e] \<and>
           dom (mem s') = dom (mem s) - {e, b} \<and>
           (\<forall>y. y \<notin> {x} \<union> set (cell_addrs (pre @ (e, b, v) # post)) \<longrightarrow> mem s' y = mem s y)"
  using assms
proof (induction pre arbitrary: x nx)
  case Nil
  then show ?case using remove_entry_first[of s x nx e b v post] by simp
next
  case (Cons c' pre)
  obtain a0 b0 v0 where c': "c' = (a0, b0, v0)" by (cases c')
  let ?cs = "pre @ (e, b, v) # post"
  have a0: "mem s a0 = Some (Node \<lparr>value = Some (Buffer b0), prev = Some x, next = first_cell ?cs\<rparr>)"
    and b0: "mem s b0 = Some (Str v0)" and v0: "v0 \<noteq> SENTINEL" and ch: "chain s (Some a0) ?cs"
    using Cons.prems(3) by (simp_all add: c')
  have d: "distinct (a0 # cell_addrs ?cs)" "x \<noteq> a0" "x \<noteq> b0" "x \<notin> set (cell_addrs ?cs)"
    "b0 \<noteq> a0" "b0 \<notin> set (cell_addrs ?cs)"
    using Cons.prems(4) by (auto simp: c' cell_addrs_Cons)
  from Cons.IH[OF a0 _ ch d(1)]
  obtain s' where s': "remove_entry s e = Some (Success, s')"
    "mem s' a0 = Some (Node \<lparr>value = Some (Buffer b0), prev = Some x, next = first_cell (pre @ post)\<rparr>)"
    "chain s' (Some a0) (pre @ post)" "avail s' = avail s @ [b, e]"
    "dom (mem s') = dom (mem s) - {e, b}"
    "\<And>y. y \<notin> {a0} \<union> set (cell_addrs ?cs) \<Longrightarrow> mem s' y = mem s y"
    by auto
  have "mem s' x = mem s x" "mem s' b0 = mem s b0"
    using d by (auto intro!: s'(6))
  moreover have "nx\<lparr>next := first_cell ((c' # pre) @ post)\<rparr> = nx"
    using Cons.prems(2) by (simp add: c')
  ultimately show ?case
    using s' Cons.prems(1) b0 v0 by (intro exI[of _ s']) (simp add: c' cell_addrs_Cons)
qed

lemma remove_entry_bucket:
  assumes bk: "bucket s h (pre @ (e, b, v) # post)"
      and d: "distinct (h # cell_addrs (pre @ (e, b, v) # post))"
  shows "\<exists>s'. remove_entry s e = Some (Success, s') \<and> bucket s' h (pre @ post) \<and>
           avail s' = avail s @ [b, e] \<and> dom (mem s') = dom (mem s) - {e, b} \<and>
           (\<forall>y. y \<notin> {h} \<union> set (cell_addrs (pre @ (e, b, v) # post)) \<longrightarrow> mem s' y = mem s y)"
  using remove_entry_chain[of s h "\<lparr>value = Some SENTINEL_literal, prev = None,
      next = first_cell (pre @ (e, b, v) # post)\<rparr>" pre e b v post] bk d
  by (simp add: bucket_def)

lemma remove_entry_sentinel:
  "bucket s h cs \<Longrightarrow> remove_entry s h = Some (Failure InvalidOperationError, s)"
  by (simp add: bucket_def remove_entry_def load_node_def load_str_def)

subsection \<open>The table invariant\<close>

lemma concat_nth_subset: "i < length xss \<Longrightarrow> set (xss ! i) \<subseteq> set (concat xss)"
  by (induction xss arbitrary: i) (auto simp: nth_Cons split: nat.splits)

lemma concat_nth_disjoint:
  "distinct (concat xss) \<Longrightarrow> i < length xss \<Longrightarrow> j < length xss \<Longrightarrow> i \<noteq> j \<Longrightarrow>
   set (xss ! i) \<inter> set (xss ! j) = {}"
proof (induction xss arbitrary: i j)
  case Nil
  then show ?case by simp
next
  case (Cons xs xss)
  show ?case
  proof (cases i)
    case 0
    then obtain j' where j': "j = Suc j'" using Cons.prems(4) by (cases j) auto
    then have "set (xss ! j') \<subseteq> set (concat xss)"
      using Cons.prems(3) by (intro concat_nth_subset) simp
    then show ?thesis using 0 j' Cons.prems by auto
  next
    case (Suc i')
    show ?thesis
    proof (cases j)
      case 0
      have "set (xss ! i') \<subseteq> set (concat xss)"
        using Cons.prems(2) Suc by (intro concat_nth_subset) simp
      then show ?thesis using 0 Suc Cons.prems by auto
    next
      case (Suc j')
      then show ?thesis using \<open>i = Suc i'\<close> Cons.prems Cons.IH[of i' j'] by auto
    qed
  qed
qed

lemma concat_nth_distinct: "distinct (concat xss) \<Longrightarrow> i < length xss \<Longrightarrow> distinct (xss ! i)"
  by (induction xss arbitrary: i) (auto simp: nth_Cons split: nat.splits)

lemma mset_concat_update:
  "i < length xss \<Longrightarrow>
   mset (concat (xss[i := ys])) + mset (xss ! i) = mset (concat xss) + mset ys"
  by (induction xss arbitrary: i) (auto simp: nth_Cons split: nat.splits)

lemma set_concat_update:
  "i < length xss \<Longrightarrow> distinct (concat xss) \<Longrightarrow>
   set (concat (xss[i := ys])) = (set (concat xss) - set (xss ! i)) \<union> set ys"
proof (induction xss arbitrary: i)
  case Nil
  then show ?case by simp
next
  case (Cons xs xss)
  show ?case
  proof (cases i)
    case 0
    then show ?thesis using Cons.prems by auto
  next
    case (Suc i')
    have "set (xss ! i') \<subseteq> set (concat xss)"
      using Cons.prems Suc by (intro concat_nth_subset) simp
    then have "set xs \<inter> set (xss ! i') = {}" using Cons.prems(2) by auto
    then show ?thesis using Suc Cons.prems Cons.IH[of i'] by auto
  qed
qed

lemma bucket_frame:
  "bucket s h cs \<Longrightarrow> (\<And>x. x \<in> set (h # cell_addrs cs) \<Longrightarrow> mem s' x = mem s x) \<Longrightarrow> bucket s' h cs"
  using chain_frame[of s "Some h" cs s'] by (simp add: bucket_def)

lemma table_inv_length: "table_inv s t css \<Longrightarrow> length t = TABLE_SIZE \<and> length css = TABLE_SIZE"
  by (auto simp: table_inv_def dest: list_all2_lengthD)

lemma table_inv_bucket: "table_inv s t css \<Longrightarrow> i < TABLE_SIZE \<Longrightarrow> bucket s (t ! i) (css ! i)"
  by (auto simp: table_inv_def dest: list_all2_nthD)

lemma table_inv_distinct:
  assumes "table_inv s t css" and "i < TABLE_SIZE"
  shows "distinct (t ! i # cell_addrs (css ! i) @ avail s)"
proof -
  have len: "length t = TABLE_SIZE" "length css = TABLE_SIZE"
    using assms(1) table_inv_length by auto
  have d: "distinct t" "distinct (concat (map cell_addrs css))" "distinct (avail s)"
    "set t \<inter> set (concat (map cell_addrs css)) = {}"
    "set t \<inter> set (avail s) = {}" "set (concat (map cell_addrs css)) \<inter> set (avail s) = {}"
    using assms(1) by (auto simp: table_inv_def table_addrs_def)
  have "distinct (cell_addrs (css ! i))"
    using concat_nth_distinct[OF d(2), of i] assms(2) len by simp
  moreover have "set (cell_addrs (css ! i)) \<subseteq> set (concat (map cell_addrs css))"
    using concat_nth_subset[of i "map cell_addrs css"] assms(2) len by simp
  moreover have "t ! i \<in> set t" using assms(2) len by simp
  ultimately show ?thesis using d by auto
qed

lemma table_inv_fresh:
  "table_inv s t css \<Longrightarrow> x \<in> set (avail s) \<Longrightarrow> x \<notin> dom (mem s)"
  by (auto simp: table_inv_def)

lemma table_inv_update:
  assumes inv: "table_inv s t css" and i: "i < TABLE_SIZE"
      and bk: "bucket s' (t ! i) cs'"
      and frame: "\<And>x. x \<in> dom (mem s) \<Longrightarrow> x \<noteq> t ! i \<Longrightarrow> x \<notin> set (cell_addrs (css ! i)) \<Longrightarrow>
                   mem s' x = mem s x"
      and ms: "mset (cell_addrs cs' @ avail s') = mset (cell_addrs (css ! i) @ avail s)"
      and dm: "dom (mem s') = (dom (mem s) - set (cell_addrs (css ! i))) \<union> set (cell_addrs cs')"
  shows "table_inv s' t (css[i := cs'])"
proof -
  have len: "length t = TABLE_SIZE" "length css = TABLE_SIZE"
    using inv table_inv_length by auto
  let ?X = "map cell_addrs css"
  have upd: "map cell_addrs (css[i := cs']) = ?X[i := cell_addrs cs']"
    by (simp add: map_update)
  have d: "distinct t" "distinct (concat ?X)" "set t \<inter> set (concat ?X) = {}"
    and dom: "dom (mem s) = set t \<union> set (concat ?X)"
    using inv by (auto simp: table_inv_def table_addrs_def)
  have iX: "i < length ?X" "?X ! i = cell_addrs (css ! i)" using i len by simp_all
  have "list_all2 (bucket s') t (css[i := cs'])"
  proof (rule list_all2_all_nthI)
    show "length t = length (css[i := cs'])" using len by simp
  next
    fix j assume j: "j < length t"
    show "bucket s' (t ! j) (css[i := cs'] ! j)"
    proof (cases "j = i")
      case True
      then show ?thesis using bk i len by simp
    next
      case False
      have bj: "bucket s (t ! j) (css ! j)" using inv j len by (intro table_inv_bucket) simp_all
      have "bucket s' (t ! j) (css ! j)"
      proof (rule bucket_frame[OF bj])
        fix x assume x: "x \<in> set (t ! j # cell_addrs (css ! j))"
        have "t ! j \<noteq> t ! i" using d(1) j i len False by (simp add: nth_eq_iff_index_eq)
        moreover have "t ! j \<notin> set (cell_addrs (css ! i))"
          using d(3) j concat_nth_subset[OF iX(1)] iX(2) by (metis IntI empty_iff nth_mem subsetD)
        moreover have "t ! i \<notin> set (cell_addrs (css ! j))"
          using d(3) j i len concat_nth_subset[of j ?X] by (metis IntI empty_iff length_map nth_map nth_mem subsetD)
        moreover have "set (cell_addrs (css ! j)) \<inter> set (cell_addrs (css ! i)) = {}"
          using concat_nth_disjoint[OF d(2), of j i] j i len False by simp
        moreover have "x \<in> dom (mem s)"
          using x dom j len concat_nth_subset[of j ?X] by auto
        ultimately show "mem s' x = mem s x" using x by (intro frame) auto
      qed
      then show ?thesis using False by simp
    qed
  qed
  moreover have "mset (table_addrs t (css[i := cs']) @ avail s') = mset (table_addrs t css @ avail s)"
  proof -
    have "mset (concat (?X[i := cell_addrs cs'])) + mset (cell_addrs (css ! i))
          = mset (concat ?X) + mset (cell_addrs cs')"
      using mset_concat_update[OF iX(1), of "cell_addrs cs'"] iX(2) by simp
    moreover have "mset (cell_addrs cs') + mset (avail s') = mset (cell_addrs (css ! i)) + mset (avail s)"
      using ms by simp
    ultimately have "mset (concat (?X[i := cell_addrs cs'])) + mset (avail s') + mset (cell_addrs (css ! i))
          = mset (concat ?X) + mset (avail s) + mset (cell_addrs (css ! i))"
      by (metis (no_types, lifting) add.assoc add.commute)
    then have "mset (concat (?X[i := cell_addrs cs'])) + mset (avail s') = mset (concat ?X) + mset (avail s)"
      by simp
    then show ?thesis by (simp add: table_addrs_def upd)
  qed
  then have "distinct (table_addrs t (css[i := cs']) @ avail s')"
    using inv mset_eq_imp_distinct_iff[of "table_addrs t (css[i := cs']) @ avail s'" "table_addrs t css @ avail s"]
    by (simp add: table_inv_def)
  moreover have "dom (mem s') = set (table_addrs t (css[i := cs']))"
  proof -
    have "set (concat (?X[i := cell_addrs cs'])) = (set (concat ?X) - set (cell_addrs (css ! i))) \<union> set (cell_addrs cs')"
      using set_concat_update[OF iX(1) d(2), of "cell_addrs cs'"] iX(2) by simp
    moreover have "set t \<inter> set (cell_addrs (css ! i)) = {}"
      using d(3) concat_nth_subset[OF iX(1)] iX(2) by auto
    ultimately show ?thesis
      unfolding dm dom table_addrs_def upd by auto
  qed
  ultimately show ?thesis using len by (simp add: table_inv_def)
qed

subsection \<open>The table operations\<close>

lemma find_Some_split:
  "List.find P xs = Some x \<Longrightarrow> \<exists>pre post. xs = pre @ x # post \<and> P x \<and> (\<forall>y \<in> set pre. \<not> P y)"
proof (induction xs)
  case Nil
  then show ?case by simp
next
  case (Cons a xs)
  show ?case
  proof (cases "P a")
    case True
    then have "a = x" using Cons.prems by simp
    then show ?thesis using True by (intro exI[of _ "[]"] exI[of _ xs]) simp
  next
    case False
    then have "List.find P xs = Some x" using Cons.prems by simp
    from Cons.IH[OF this] obtain pre post where
      "xs = pre @ x # post" "P x" "\<forall>y \<in> set pre. \<not> P y" by blast
    then show ?thesis using False by (intro exI[of _ "a # pre"] exI[of _ post]) simp
  qed
qed

lemma cell_values_append: "cell_values (cs @ ds) = cell_values cs @ cell_values ds"
  by (simp add: cell_values_def)

lemma cell_values_Cons: "cell_values ((a, b, v) # cs) = v # cell_values cs"
  by (simp add: cell_values_def)

lemma hash_index: "unat (hash cs k) < TABLE_SIZE"
  by (rule hash_less_TABLE_SIZE)

lemma table_insert_cases:
  assumes inv: "table_inv s t css" and ins: "table_insert cs s t k = Some (r, s')"
  shows "(r \<noteq> Success \<and> s' = s) \<or>
         (r = Success \<and> k \<noteq> SENTINEL \<and>
          (\<exists>a b. avail s = a # b # avail s' \<and>
                 table_inv s' t (css[unat (hash cs k) := (a, b, k) # css ! unat (hash cs k)])))"
proof -
  let ?i = "unat (hash cs k)"
  have i: "?i < TABLE_SIZE" by (rule hash_index)
  have len: "length t = TABLE_SIZE" "length css = TABLE_SIZE"
    using inv table_inv_length by auto
  have ie: "insert_entry s (t ! ?i) k = Some (r, s')"
    using ins i len by (simp add: table_insert_def Let_def)
  show ?thesis
  proof (cases "k = SENTINEL")
    case True
    then show ?thesis using ie by (auto simp: insert_entry_def)
  next
    case False
    show ?thesis
    proof (cases "avail s")
      case Nil
      then show ?thesis using ie False by (auto simp: insert_entry_def malloc_def)
    next
      case (Cons a as)
      show ?thesis
      proof (cases as)
        case Nil
        then show ?thesis using ie False Cons by (auto simp: insert_entry_def malloc_def)
      next
        case (Cons b rest)
        have av: "avail s = a # b # rest" using \<open>avail s = a # as\<close> Cons by simp
        have bk: "bucket s (t ! ?i) (css ! ?i)" using inv i by (rule table_inv_bucket)
        have d: "distinct (t ! ?i # cell_addrs (css ! ?i) @ avail s)"
          using inv i by (rule table_inv_distinct)
        have fr: "a \<notin> dom (mem s)" "b \<notin> dom (mem s)"
          using table_inv_fresh[OF inv] av by auto
        from insert_entry_bucket[OF bk av fr _ _ False] d av
        obtain s'' where s'': "insert_entry s (t ! ?i) k = Some (Success, s'')"
          "bucket s'' (t ! ?i) ((a, b, k) # css ! ?i)" "avail s'' = rest"
          "dom (mem s'') = insert a (insert b (dom (mem s)))"
          "\<And>x. x \<notin> {t ! ?i, a, b} \<union> set (cell_addrs (css ! ?i)) \<Longrightarrow> mem s'' x = mem s x"
          by auto
        have eq: "r = Success" "s' = s''" using ie s''(1) by auto
        have "table_inv s'' t (css[?i := (a, b, k) # css ! ?i])"
        proof (rule table_inv_update[OF inv i s''(2)])
          fix x assume "x \<in> dom (mem s)" "x \<noteq> t ! ?i" "x \<notin> set (cell_addrs (css ! ?i))"
          then show "mem s'' x = mem s x" using fr by (intro s''(5)) auto
        next
          show "mset (cell_addrs ((a, b, k) # css ! ?i) @ avail s'')
                = mset (cell_addrs (css ! ?i) @ avail s)"
            by (simp add: cell_addrs_Cons s''(3) av)
        next
          have "set (cell_addrs (css ! ?i)) \<inter> {a, b} = {}" using d av by auto
          then show "dom (mem s'') = dom (mem s) - set (cell_addrs (css ! ?i))
                       \<union> set (cell_addrs ((a, b, k) # css ! ?i))"
            using chain_dom[of s "Some (t ! ?i)" "css ! ?i"] bk
            by (auto simp: s''(4) cell_addrs_Cons bucket_def)
        qed
        then show ?thesis using eq False av s''(3) by auto
      qed
    qed
  qed
qed

lemma table_find_inv:
  assumes inv: "table_inv s t css"
  shows "table_find cs s t k
         = Some (map_option fst (List.find (\<lambda>(a, b, w). w = k) (css ! unat (hash cs k))))"
proof -
  have "bucket s (t ! unat (hash cs k)) (css ! unat (hash cs k))"
    using inv hash_index by (rule table_inv_bucket)
  then show ?thesis
    using table_inv_length[OF inv] hash_index[of cs k]
    by (simp add: table_find_def Let_def find_entry_bucket)
qed

lemma table_remove_cases:
  assumes inv: "table_inv s t css"
  shows "(k \<notin> set (cell_values (css ! unat (hash cs k))) \<and>
          table_remove cs s t k = Some (Failure NotFound, s)) \<or>
         (\<exists>pre e b post s'.
            css ! unat (hash cs k) = pre @ (e, b, k) # post \<and> k \<notin> set (cell_values pre) \<and>
            table_find cs s t k = Some (Some e) \<and>
            table_remove cs s t k = Some (Success, s') \<and>
            avail s' = avail s @ [b, e] \<and> dom (mem s') = dom (mem s) - {e, b} \<and>
            table_inv s' t (css[unat (hash cs k) := pre @ post]))"
proof -
  let ?i = "unat (hash cs k)"
  let ?P = "\<lambda>(a, b, w). w = k"
  have i: "?i < TABLE_SIZE" by (rule hash_index)
  have fd: "table_find cs s t k = Some (map_option fst (List.find ?P (css ! ?i)))"
    using inv by (rule table_find_inv)
  show ?thesis
  proof (cases "List.find ?P (css ! ?i)")
    case None
    then have "k \<notin> set (cell_values (css ! ?i))" by (simp add: find_None_iff)
    moreover have "table_remove cs s t k = Some (Failure NotFound, s)"
      using fd None by (simp add: table_remove_def)
    ultimately show ?thesis by simp
  next
    case (Some c)
    from find_Some_split[OF this] obtain pre post where
      sp: "css ! ?i = pre @ c # post" "?P c" "\<forall>y \<in> set pre. \<not> ?P y" by blast
    obtain e b where c: "c = (e, b, k)" using sp(2) by (cases c) auto
    have npre: "k \<notin> set (cell_values pre)" using sp(3) by (auto simp: cell_values_def)
    have bk: "bucket s (t ! ?i) (pre @ (e, b, k) # post)"
      using table_inv_bucket[OF inv i] sp(1) c by simp
    have d: "distinct (t ! ?i # cell_addrs (pre @ (e, b, k) # post) @ avail s)"
      using table_inv_distinct[OF inv i] sp(1) c by simp
    then have d': "distinct (t ! ?i # cell_addrs (pre @ (e, b, k) # post))" by simp
    from remove_entry_bucket[OF bk d']
    obtain s' where s': "remove_entry s e = Some (Success, s')" "bucket s' (t ! ?i) (pre @ post)"
      "avail s' = avail s @ [b, e]" "dom (mem s') = dom (mem s) - {e, b}"
      "\<And>y. y \<notin> {t ! ?i} \<union> set (cell_addrs (pre @ (e, b, k) # post)) \<Longrightarrow> mem s' y = mem s y"
      by auto
    have fe: "table_find cs s t k = Some (Some e)" using fd Some c by simp
    then have rm: "table_remove cs s t k = Some (Success, s')"
      using s'(1) by (simp add: table_remove_def)
    have "table_inv s' t (css[?i := pre @ post])"
    proof (rule table_inv_update[OF inv i s'(2)])
      fix x assume "x \<in> dom (mem s)" "x \<noteq> t ! ?i" "x \<notin> set (cell_addrs (css ! ?i))"
      then show "mem s' x = mem s x" using sp(1) c by (intro s'(5)) auto
    next
      show "mset (cell_addrs (pre @ post) @ avail s') = mset (cell_addrs (css ! ?i) @ avail s)"
        by (simp add: sp(1) c s'(3) cell_addrs_append cell_addrs_Cons)
    next
      have "e \<notin> set (cell_addrs (pre @ post))" "b \<notin> set (cell_addrs (pre @ post))"
        using d' by (auto simp: cell_addrs_append cell_addrs_Cons)
      then show "dom (mem s') = dom (mem s) - set (cell_addrs (css ! ?i)) \<union> set (cell_addrs (pre @ post))"
        using chain_dom[of s "Some (t ! ?i)" "pre @ (e, b, k) # post"] bk
        by (auto simp: s'(4) sp(1) c cell_addrs_append cell_addrs_Cons bucket_def)
    qed
    then show ?thesis using sp(1) c npre fe rm s'(3,4) by blast
  qed
qed

subsection \<open>Reachable states\<close>

lemma create_buckets_spec:
  "create_buckets n s = (Some t, s') \<Longrightarrow>
   avail s = t @ avail s' \<and> length t = n \<and>
   mem s' = (\<lambda>x. if x \<in> set t
                  then Some (Node \<lparr>value = Some SENTINEL_literal, prev = None, next = None\<rparr>)
                  else mem s x)"
proof (induction n arbitrary: s t s')
  case 0
  then show ?case by simp
next
  case (Suc n)
  from Suc.prems obtain a as where av: "avail s = a # as"
    by (cases "avail s") (auto simp: create_list_def malloc_def)
  let ?s1 = "store_node (s\<lparr>avail := as\<rparr>) a \<lparr>value = Some SENTINEL_literal, prev = None, next = None\<rparr>"
  have cl: "create_list s = (Some a, ?s1)" using av by (simp add: create_list_def malloc_def)
  from Suc.prems cl obtain t' where t': "create_buckets n ?s1 = (Some t', s')" "t = a # t'"
    by (auto split: prod.splits option.splits)
  from Suc.IH[OF t'(1)] show ?case
    using av t'(2) by (auto simp: store_node_def)
qed

lemma create_table_inv:
  assumes "distinct addresses"
      and "create_table \<lparr>mem = Map.empty, avail = addresses\<rparr> = (Some t, s)"
  shows "table_inv s t (replicate TABLE_SIZE [])"
proof -
  from create_buckets_spec[OF assms(2)[unfolded create_table_def]]
  have sp: "addresses = t @ avail s" "length t = TABLE_SIZE"
    "mem s = (\<lambda>x. if x \<in> set t
                  then Some (Node \<lparr>value = Some SENTINEL_literal, prev = None, next = None\<rparr>)
                  else None)"
    by (simp_all cong: if_cong)
  have "list_all2 (bucket s) t (replicate TABLE_SIZE [])"
    using sp(2,3) by (intro list_all2_all_nthI) (simp_all add: bucket_def)
  moreover have "table_addrs t (replicate TABLE_SIZE []) = t"
    by (simp add: table_addrs_def cell_addrs_Nil)
  moreover have "dom (mem s) = set t" using sp(3) by (auto simp: dom_def)
  ultimately show ?thesis
    using assms(1) sp(1,2) by (simp add: table_inv_def)
qed

lemma keys_placed_iff:
  "keys_placed cs css \<longleftrightarrow>
   (\<forall>i < length css. \<forall>v \<in> set (cell_values (css ! i)). unat (hash cs v) = i)"
proof -
  have "keys_placed cs css \<longleftrightarrow>
        (\<forall>i < length css. list_all (\<lambda>v. unat (hash cs v) = i) (cell_values (css ! i)))"
    by (simp add: keys_placed_def list_all_length)
  then show ?thesis by (simp add: list_all_iff)
qed

lemma keys_placed_update:
  assumes "keys_placed cs css" and "i < length css"
      and "\<And>v. v \<in> set (cell_values cs') \<Longrightarrow> v \<in> set (cell_values (css ! i)) \<or> unat (hash cs v) = i"
  shows "keys_placed cs (css[i := cs'])"
  unfolding keys_placed_iff
proof (intro allI impI ballI)
  fix j v assume j: "j < length (css[i := cs'])" and v: "v \<in> set (cell_values (css[i := cs'] ! j))"
  show "unat (hash cs v) = j"
  proof (cases "j = i")
    case True
    then have "v \<in> set (cell_values cs')" using v assms(2) by simp
    from assms(3)[OF this] show ?thesis
      using assms(1,2) True by (auto simp: keys_placed_iff)
  next
    case False
    then show ?thesis using assms(1) j v by (auto simp: keys_placed_iff)
  qed
qed

lemma reachable_inv:
  "reachable cs s t \<Longrightarrow> \<exists>css. table_inv s t css \<and> keys_placed cs css"
proof (induction rule: reachable.induct)
  case (created addresses table s)
  then have "table_inv s table (replicate TABLE_SIZE [])" by (rule create_table_inv)
  moreover have "keys_placed cs (replicate TABLE_SIZE [])"
    by (simp add: keys_placed_iff cell_values_def)
  ultimately show ?case by blast
next
  case (inserted s table name r s')
  then obtain css where inv: "table_inv s table css" and kp: "keys_placed cs css" by blast
  let ?i = "unat (hash cs name)"
  have i: "?i < length css" using table_inv_length[OF inv] hash_index[of cs name] by simp
  from table_insert_cases[OF inv inserted.hyps(2)] show ?case
  proof
    assume "r \<noteq> Success \<and> s' = s"
    then show ?thesis using inv kp by blast
  next
    assume "r = Success \<and> name \<noteq> SENTINEL \<and>
      (\<exists>a b. avail s = a # b # avail s' \<and> table_inv s' table (css[?i := (a, b, name) # css ! ?i]))"
    then obtain a b where inv': "table_inv s' table (css[?i := (a, b, name) # css ! ?i])" by blast
    have "keys_placed cs (css[?i := (a, b, name) # css ! ?i])"
      using kp i by (rule keys_placed_update) (auto simp: cell_values_Cons)
    with inv' show ?thesis by blast
  qed
next
  case (removed s table name r s')
  then obtain css where inv: "table_inv s table css" and kp: "keys_placed cs css" by blast
  let ?i = "unat (hash cs name)"
  have i: "?i < length css" using table_inv_length[OF inv] hash_index[of cs name] by simp
  from table_remove_cases[OF inv, of name cs] show ?case
  proof (elim disjE exE conjE)
    assume "table_remove cs s table name = Some (Failure NotFound, s)"
    then have "s' = s" using removed.hyps(2) by simp
    then show ?thesis using inv kp by blast
  next
    fix pre e b post s''
    assume sp: "css ! ?i = pre @ (e, b, name) # post"
      and rm: "table_remove cs s table name = Some (Success, s'')"
      and inv': "table_inv s'' table (css[?i := pre @ post])"
    have "s' = s''" using rm removed.hyps(2) by simp
    moreover have "keys_placed cs (css[?i := pre @ post])"
      using kp i by (rule keys_placed_update) (auto simp: sp cell_values_append cell_values_Cons)
    ultimately show ?thesis using inv' by blast
  qed
next
  case (found s table name p)
  then show ?case by simp
next
  case (printed s table out)
  then show ?case by simp
qed

subsection \<open>The sentinel\<close>

lemma chain_node_string:
  "chain s pr cs \<Longrightarrow> (a, b, v) \<in> set cs \<Longrightarrow> node_string s a = Some v"
proof (induction cs arbitrary: pr)
  case Nil
  then show ?case by simp
next
  case (Cons c cs)
  obtain a' b' v' where c: "c = (a', b', v')" by (cases c)
  show ?case
  proof (cases "(a, b, v) = c")
    case True
    then show ?thesis using Cons.prems(1) by (simp add: c node_string_def load_node_def load_str_def)
  next
    case False
    then have "(a, b, v) \<in> set cs" using Cons.prems(2) by simp
    moreover have "chain s (Some a') cs" using Cons.prems(1) by (simp add: c)
    ultimately show ?thesis by (rule Cons.IH[rotated])
  qed
qed

lemma bucket_head_string: "bucket s h cs \<Longrightarrow> node_string s h = Some SENTINEL"
  by (simp add: bucket_def node_string_def load_node_def load_str_def)

lemma nodes_from_chain:
  "chain s pr cs \<Longrightarrow> nodes_from s (first_cell cs) = Some (map fst cs)"
proof (induction cs arbitrary: pr)
  case Nil
  then show ?case by (simp add: nodes_from.simps)
next
  case (Cons c cs)
  obtain a b w where c: "c = (a, b, w)" by (cases c)
  from Cons.prems have "chain s (Some a) cs" by (simp add: c)
  from Cons.IH[OF this] Cons.prems show ?case
    by (subst nodes_from.simps) (simp add: c load_node_def)
qed

lemma list_nodes_bucket: "bucket s h cs \<Longrightarrow> list_nodes s h = Some (h # map fst cs)"
  using nodes_from_chain[of s "Some h" cs]
  by (subst list_nodes_def, subst nodes_from.simps) (simp add: bucket_def load_node_def)

lemma chain_filter_sentinel:
  "chain s pr cs \<Longrightarrow> filter (\<lambda>a. node_string s a = Some SENTINEL) (map fst cs) = []"
proof -
  assume ch: "chain s pr cs"
  have "node_string s a \<noteq> Some SENTINEL" if "a \<in> set (map fst cs)" for a
  proof -
    from that obtain b v where m: "(a, b, v) \<in> set cs" by auto
    then have "v \<in> set (cell_values cs)" by (force simp: cell_values_def)
    then have "v \<noteq> SENTINEL" using chain_no_sentinel[OF ch] by auto
    then show ?thesis using chain_node_string[OF ch m] by simp
  qed
  then show ?thesis by (simp add: filter_empty_conv)
qed

lemma table_inv_list_inv:
  assumes "table_inv s t css" and "i < TABLE_SIZE"
  shows "list_inv s (t ! i) (css ! i)"
proof -
  have "mem s x = None" if "x \<in> set (avail s)" for x
    using table_inv_fresh[OF assms(1) that] by auto
  then show ?thesis
    using table_inv_bucket[OF assms] table_inv_distinct[OF assms]
    by (simp add: list_inv_def list_all_iff)
qed

text \<open>
  Claim C4. In every state reachable from the creation of the table by insert, find,
  remove and print operations, the table has \<open>TABLE_SIZE\<close> buckets, and the list of
  each bucket has its sentinel node as its first node, the sentinel's value is the
  reserved marker \<open>SENTINEL\<close>, it is the only node of the list with that value, and
  \<open>remove_entry\<close> on it fails with \<open>InvalidOperationError\<close> and changes nothing.
\<close>

theorem sentinel_invariant:
  assumes "reachable char_signed s table" and "i < TABLE_SIZE"
  shows "length table = TABLE_SIZE \<and>
         (\<exists>ns. list_nodes s (table ! i) = Some (table ! i # ns) \<and>
               filter (\<lambda>a. node_string s a = Some SENTINEL) (table ! i # ns) = [table ! i]) \<and>
         (\<exists>n. load_node s (table ! i) = Some n \<and> value n = Some SENTINEL_literal \<and> prev n = None) \<and>
         node_string s (table ! i) = Some ''SENTINEL'' \<and>
         remove_entry s (table ! i) = Some (Failure InvalidOperationError, s)"
proof -
  from reachable_inv[OF assms(1)] obtain css where inv: "table_inv s table css" by blast
  have bk: "bucket s (table ! i) (css ! i)" using inv assms(2) by (rule table_inv_bucket)
  have "list_nodes s (table ! i) = Some (table ! i # map fst (css ! i))"
    using bk by (rule list_nodes_bucket)
  moreover have "filter (\<lambda>a. node_string s a = Some SENTINEL) (table ! i # map fst (css ! i)) = [table ! i]"
    using bk chain_filter_sentinel[of s "Some (table ! i)" "css ! i"] bucket_head_string[OF bk]
    by (simp add: bucket_def)
  moreover have "\<exists>n. load_node s (table ! i) = Some n \<and> value n = Some SENTINEL_literal \<and> prev n = None"
    using bk by (simp add: bucket_def load_node_def)
  moreover have "node_string s (table ! i) = Some ''SENTINEL''"
    using bucket_head_string[OF bk] by (simp add: SENTINEL_def)
  moreover have "remove_entry s (table ! i) = Some (Failure InvalidOperationError, s)"
    using bk by (rule remove_entry_sentinel)
  ultimately show ?thesis using table_inv_length[OF inv] by blast
qed

lemma example_heap_eq:
  "create_table \<lparr>mem = Map.empty, avail = [0, 1, 2, 3, 4, 5, 6, 7, 8]\<rparr> = (Some example_table, example_heap)"
  by (simp add: example_heap_def example_table_def create_table_def TABLE_SIZE_def
      eval_nat_numeral create_list_def malloc_def store_node_def)

lemma example_reachable: "reachable cs example_heap example_table"
  by (rule reachable.created[OF _ example_heap_eq]) simp

lemma example_inv: "table_inv example_heap example_table (replicate TABLE_SIZE [])"
  by (rule create_table_inv[OF _ example_heap_eq]) simp

lemma example_avail: "avail example_heap = [5, 6, 7, 8]"
  using create_buckets_spec[OF example_heap_eq[unfolded create_table_def]]
  by (simp add: example_table_def)

theorem sentinel_invariant_witness:
  "reachable True example_heap example_table \<and> (2::nat) < TABLE_SIZE \<and>
   example_table ! 2 = 2 \<and>
   list_nodes example_heap 2 = Some [2] \<and>
   node_string example_heap 2 = Some ''SENTINEL'' \<and>
   remove_entry example_heap 2 = Some (Failure InvalidOperationError, example_heap)"
proof -
  have r: "reachable True example_heap example_table" by (rule example_reachable)
  have i: "(2::nat) < TABLE_SIZE" by (simp add: TABLE_SIZE_def)
  have t: "example_table ! 2 = 2" by (simp add: example_table_def)
  have "bucket example_heap (example_table ! 2) (replicate TABLE_SIZE [] ! 2)"
    using example_inv i by (rule table_inv_bucket)
  then have "list_nodes example_heap 2 = Some [2]"
    using list_nodes_bucket[of example_heap 2 "[]"] i by (simp add: t)
  then show ?thesis
    using sentinel_invariant[OF r i] r i t by simp
qed

subsection \<open>Insertion\<close>

lemma insert_entry_Success:
  assumes "insert_entry s h v = Some (Success, s')"
  shows "v \<noteq> SENTINEL \<and> (\<exists>a b. avail s = a # b # avail s')"
proof -
  have v: "v \<noteq> SENTINEL" using assms by (auto simp: insert_entry_def)
  obtain a as where a: "avail s = a # as"
    using assms v by (cases "avail s") (auto simp: insert_entry_def malloc_def)
  obtain b rest where b: "as = b # rest"
    using assms v a by (cases as) (auto simp: insert_entry_def malloc_def)
  have "avail s' = rest"
    using assms v a b
    by (auto simp: insert_entry_def malloc_def store_str_def store_node_def set_next_def
        set_prev_def load_node_def Let_def
        split: option.splits object.splits if_splits bind_splits)
  then show ?thesis using v a b by simp
qed

text \<open>
  Claim C5. On a well-formed list, a successful \<open>insert_entry(head, v)\<close> creates a new
  node that holds a copy of \<open>v\<close>, whose predecessor is \<open>head\<close> and whose successor is
  the old successor of \<open>head\<close>; \<open>head\<close>'s successor becomes the new node, and the
  displaced successor, when there is one, gets the new node as its predecessor. The
  values of the list after the insert are \<open>v\<close> followed by the values before.
\<close>

theorem insert_entry_links:
  assumes "list_inv s list_head cs" and "insert_entry s list_head v = Some (Success, s')"
  shows "\<exists>new_entry new_string head.
           avail s = new_entry # new_string # avail s' \<and>
           load_node s list_head = Some head \<and>
           load_node s' new_entry
             = Some \<lparr>value = Some (Buffer new_string), prev = Some list_head, next = next head\<rparr> \<and>
           mem s' new_string = Some (Str v) \<and>
           load_node s' list_head = Some (head\<lparr>next := Some new_entry\<rparr>) \<and>
           (\<forall>c. next head = Some c \<longrightarrow>
                (\<exists>n. load_node s c = Some n \<and>
                     load_node s' c = Some (n\<lparr>prev := Some new_entry\<rparr>))) \<and>
           list_values s list_head = Some (cell_values cs) \<and>
           list_values s' list_head = Some (v # cell_values cs) \<and>
           list_inv s' list_head ((new_entry, new_string, v) # cs)"
proof -
  from insert_entry_Success[OF assms(2)] obtain a b where
    v: "v \<noteq> SENTINEL" and av: "avail s = a # b # avail s'" by blast
  have bk: "bucket s list_head cs" and d: "distinct (list_head # cell_addrs cs @ avail s)"
    and fr: "\<And>x. x \<in> set (avail s) \<Longrightarrow> mem s x = None"
    using assms(1) by (auto simp: list_inv_def list_all_iff)
  have fresh: "a \<notin> dom (mem s)" "b \<notin> dom (mem s)" using fr av by auto
  from insert_entry_bucket[OF bk av fresh _ _ v] d av
  obtain s'' where s'': "insert_entry s list_head v = Some (Success, s'')"
    "bucket s'' list_head ((a, b, v) # cs)"
    "\<And>x. x \<notin> {list_head, a, b} \<union> set (cell_addrs cs) \<Longrightarrow> mem s'' x = mem s x"
    by auto
  have eq: "s'' = s'" using s''(1) assms(2) by simp
  have bk': "bucket s' list_head ((a, b, v) # cs)" using s''(2) eq by simp
  let ?head = "\<lparr>value = Some SENTINEL_literal, prev = None, next = first_cell cs\<rparr>"
  have h: "load_node s list_head = Some ?head" using bk by (simp add: bucket_def load_node_def)
  have a': "load_node s' a = Some \<lparr>value = Some (Buffer b), prev = Some list_head, next = next ?head\<rparr>"
    and b': "mem s' b = Some (Str v)"
    and h': "load_node s' list_head = Some (?head\<lparr>next := Some a\<rparr>)"
    using bk' by (simp_all add: bucket_def load_node_def)
  have c': "\<exists>n. load_node s c = Some n \<and> load_node s' c = Some (n\<lparr>prev := Some a\<rparr>)"
    if "next ?head = Some c" for c
  proof -
    from that obtain e w cs' where cs: "cs = (c, e, w) # cs'"
      by (cases cs) auto
    show ?thesis using bk bk' by (simp add: cs bucket_def load_node_def)
  qed
  have lv: "list_values s list_head = Some (cell_values cs)"
    using bk by (rule list_values_bucket)
  have lv': "list_values s' list_head = Some (v # cell_values cs)"
    using list_values_bucket[OF bk'] by (simp add: cell_values_Cons)
  have "mem s' x = None" if "x \<in> set (avail s')" for x
  proof -
    have "x \<in> set (avail s)" using that av by simp
    moreover from this have "x \<notin> {list_head, a, b} \<union> set (cell_addrs cs)"
      using d av that by auto
    ultimately show ?thesis using s''(3)[of x] fr eq by simp
  qed
  then have "list_inv s' list_head ((a, b, v) # cs)"
    using bk' d av by (auto simp: list_inv_def list_all_iff cell_addrs_Cons)
  then show ?thesis
    using av h a' b' h' c' lv lv' by blast
qed

lemma hash_bob: "unat (hash True ''bob'') = 0"
  by (simp add: hash_def char_to_int_def TABLE_SIZE_def byte_of_def)

lemma hash_dup: "unat (hash True ''dup'') = 0"
  by (simp add: hash_def char_to_int_def TABLE_SIZE_def byte_of_def)

lemma table_insert_succeeds:
  assumes inv: "table_inv s t css" and v: "k \<noteq> SENTINEL" and av: "avail s = a # b # rest"
  shows "\<exists>s'. table_insert cs s t k = Some (Success, s')"
proof -
  let ?i = "unat (hash cs k)"
  have i: "?i < TABLE_SIZE" by (rule hash_index)
  have bk: "bucket s (t ! ?i) (css ! ?i)" using inv i by (rule table_inv_bucket)
  have d: "distinct (t ! ?i # cell_addrs (css ! ?i) @ avail s)"
    using inv i by (rule table_inv_distinct)
  have fr: "a \<notin> dom (mem s)" "b \<notin> dom (mem s)"
    using table_inv_fresh[OF inv] av by auto
  from insert_entry_bucket[OF bk av fr _ _ v] d av
  obtain s' where "insert_entry s (t ! ?i) k = Some (Success, s')" by auto
  then show ?thesis
    using i table_inv_length[OF inv] by (simp add: table_insert_def Let_def)
qed

theorem insert_entry_links_witness:
  "list_inv example_heap 0 [] \<and>
   (\<exists>s' s''.
      insert_entry example_heap 0 ''bob'' = Some (Success, s') \<and>
      avail example_heap = 5 # 6 # avail s' \<and>
      load_node s' 5 = Some \<lparr>value = Some (Buffer 6), prev = Some 0, next = None\<rparr> \<and>
      mem s' 6 = Some (Str ''bob'') \<and>
      list_values s' 0 = Some [''bob''] \<and>
      list_inv s' 0 [(5, 6, ''bob'')] \<and>
      insert_entry s' 0 ''dup'' = Some (Success, s'') \<and>
      load_node s'' 7 = Some \<lparr>value = Some (Buffer 8), prev = Some 0, next = Some 5\<rparr> \<and>
      load_node s'' 5 = Some \<lparr>value = Some (Buffer 6), prev = Some 7, next = None\<rparr> \<and>
      list_values s'' 0 = Some [''dup'', ''bob''])"
proof -
  have i: "(0::nat) < TABLE_SIZE" by (simp add: TABLE_SIZE_def)
  have li: "list_inv example_heap 0 []"
    using table_inv_list_inv[OF example_inv i] i by (simp add: example_table_def)
  have "''bob'' \<noteq> SENTINEL" by (simp add: SENTINEL_def)
  from table_insert_succeeds[OF example_inv this example_avail, of True]
  obtain s' where ti: "table_insert True example_heap example_table ''bob'' = Some (Success, s')"
    by blast
  then have ie: "insert_entry example_heap 0 ''bob'' = Some (Success, s')"
    using hash_bob by (simp add: table_insert_def example_table_def)
  have h0: "load_node example_heap 0
            = Some \<lparr>value = Some SENTINEL_literal, prev = None, next = None\<rparr>"
    using li by (simp add: list_inv_def bucket_def load_node_def)
  from insert_entry_links[OF li ie] example_avail h0
  have 1: "avail example_heap = 5 # 6 # avail s'"
    "load_node s' 5 = Some \<lparr>value = Some (Buffer 6), prev = Some 0, next = None\<rparr>"
    "mem s' 6 = Some (Str ''bob'')" "list_values s' 0 = Some [''bob'']"
    "list_inv s' 0 [(5, 6, ''bob'')]"
    "load_node s' 0 = Some \<lparr>value = Some SENTINEL_literal, prev = None, next = Some 5\<rparr>"
    by (auto simp: cell_values_def)
  from table_insert_cases[OF example_inv ti] obtain css' where
    inv': "table_inv s' example_table css'" by auto
  have av': "avail s' = [7, 8]" using 1(1) example_avail by simp
  have "''dup'' \<noteq> SENTINEL" by (simp add: SENTINEL_def)
  from table_insert_succeeds[OF inv' this av', of True]
  obtain s'' where "table_insert True s' example_table ''dup'' = Some (Success, s'')"
    by blast
  then have ie': "insert_entry s' 0 ''dup'' = Some (Success, s'')"
    using hash_dup by (simp add: table_insert_def example_table_def)
  from insert_entry_links[OF 1(5) ie'] av' 1(2,6)
  have 2: "load_node s'' 7 = Some \<lparr>value = Some (Buffer 8), prev = Some 0, next = Some 5\<rparr>"
    "load_node s'' 5 = Some \<lparr>value = Some (Buffer 6), prev = Some 7, next = None\<rparr>"
    "list_values s'' 0 = Some [''dup'', ''bob'']"
    by (auto simp: cell_values_def)
  show ?thesis using li ie 1(1-5) ie' 2 by blast
qed

text \<open>
  Claim C6. For every list state, \<open>insert_entry\<close> of the reserved marker string
  \<open>"SENTINEL"\<close> is rejected with \<open>InvalidValueError\<close> and the heap, hence every bucket,
  is exactly as before; the same holds for the insertion through the table.
\<close>

theorem insert_sentinel_rejected:
  "insert_entry s list_head ''SENTINEL'' = Some (Failure InvalidValueError, s) \<and>
   (length table = TABLE_SIZE \<longrightarrow>
      table_insert char_signed s table ''SENTINEL'' = Some (Failure InvalidValueError, s))"
proof -
  have "insert_entry s h ''SENTINEL'' = Some (Failure InvalidValueError, s)" for h
    by (simp add: insert_entry_def SENTINEL_def)
  then show ?thesis
    using hash_less_TABLE_SIZE[of char_signed "''SENTINEL''"]
    by (simp add: table_insert_def Let_def)
qed

theorem insert_sentinel_rejected_witness:
  "length example_table = TABLE_SIZE \<and>
   table_insert True example_heap example_table ''SENTINEL''
     = Some (Failure InvalidValueError, example_heap)"
proof -
  have l: "length example_table = TABLE_SIZE" by (simp add: example_table_def TABLE_SIZE_def)
  show ?thesis
    using insert_sentinel_rejected[of example_heap 0 example_table True] l by simp
qed

subsection \<open>Find after insertion\<close>

lemma find_Some_mem: "List.find P xs = Some x \<Longrightarrow> x \<in> set xs \<and> P x"
  using find_Some_split[of P xs x] by auto

lemma cell_addrs_mem: "(a, b, v) \<in> set cs \<Longrightarrow> a \<in> set (cell_addrs cs) \<and> b \<in> set (cell_addrs cs)"
  by (induction cs) (auto simp: cell_addrs_def)

lemma table_find_present:
  assumes inv: "table_inv s t css" and k: "k \<in> set (cell_values (css ! unat (hash cs k)))"
  shows "\<exists>e b. table_find cs s t k = Some (Some e) \<and> (e, b, k) \<in> set (css ! unat (hash cs k)) \<and>
               node_string s e = Some k"
proof -
  let ?i = "unat (hash cs k)"
  obtain c where c: "List.find (\<lambda>(a, b, w). w = k) (css ! ?i) = Some c"
    using k find_None_iff[of k "css ! ?i"] by (cases "List.find (\<lambda>(a, b, w). w = k) (css ! ?i)") auto
  from find_Some_mem[OF this] obtain e b where m: "(e, b, k) \<in> set (css ! ?i)" "c = (e, b, k)"
    by (cases c) auto
  have "bucket s (t ! ?i) (css ! ?i)" using inv hash_index by (rule table_inv_bucket)
  then have "node_string s e = Some k"
    using chain_node_string[of s "Some (t ! ?i)" "css ! ?i" e b k] m(1) by (simp add: bucket_def)
  then show ?thesis using table_find_inv[OF inv, of cs k] c m by auto
qed

lemma table_find_absent:
  assumes inv: "table_inv s t css" and k: "k \<notin> set (cell_values (css ! unat (hash cs k)))"
  shows "table_find cs s t k = Some None"
  using table_find_inv[OF inv, of cs k] k find_None_iff[of k "css ! unat (hash cs k)"] by simp

lemma insert_keys_inv:
  "table_inv s t css \<Longrightarrow> insert_keys cs s t ks = Some s' \<Longrightarrow>
   \<exists>css'. table_inv s' t css' \<and>
      (\<forall>k \<in> set ks. k \<in> set (cell_values (css' ! unat (hash cs k)))) \<and>
      (\<forall>i < TABLE_SIZE. set (cell_values (css ! i)) \<subseteq> set (cell_values (css' ! i)))"
proof (induction ks arbitrary: s css)
  case Nil
  then show ?case by auto
next
  case (Cons k ks)
  let ?i = "unat (hash cs k)"
  from Cons.prems(2) obtain s1 where s1: "table_insert cs s t k = Some (Success, s1)"
    "insert_keys cs s1 t ks = Some s'"
    by (auto split: option.splits prod.splits result.splits)
  from table_insert_cases[OF Cons.prems(1) s1(1)] obtain a b where
    inv1: "table_inv s1 t (css[?i := (a, b, k) # css ! ?i])" by auto
  let ?css1 = "css[?i := (a, b, k) # css ! ?i]"
  have i: "?i < length css" using table_inv_length[OF Cons.prems(1)] hash_index[of cs k] by simp
  from Cons.IH[OF inv1 s1(2)] obtain css' where css': "table_inv s' t css'"
    "\<forall>k \<in> set ks. k \<in> set (cell_values (css' ! unat (hash cs k)))"
    "\<forall>j < TABLE_SIZE. set (cell_values (?css1 ! j)) \<subseteq> set (cell_values (css' ! j))"
    by blast
  have "k \<in> set (cell_values (?css1 ! ?i))" using i by (simp add: cell_values_Cons)
  then have "k \<in> set (cell_values (css' ! ?i))" using css'(3) hash_index[of cs k] by blast
  moreover have "set (cell_values (css ! j)) \<subseteq> set (cell_values (css' ! j))" if "j < TABLE_SIZE" for j
  proof -
    have "set (cell_values (css ! j)) \<subseteq> set (cell_values (?css1 ! j))"
      using i by (cases "j = ?i") (auto simp: cell_values_Cons)
    then show ?thesis using css'(3) that by blast
  qed
  ultimately show ?case using css'(1,2) by auto
qed

text \<open>
  Claim C1. After any sequence of successful insertions into a table, starting in any
  state the program can reach, \<open>find\<close> for every key \<open>k\<close> of the sequence (hash \<open>k\<close> to
  its bucket, scan that bucket's list) returns a node, and the string stored in that
  node equals \<open>k\<close>.
\<close>

theorem find_after_insert:
  assumes "reachable char_signed s table"
      and "insert_keys char_signed s table ks = Some s'"
      and "k \<in> set ks"
  shows "\<exists>entry. table_find char_signed s' table k = Some (Some entry) \<and>
                 node_string s' entry = Some k"
proof -
  from reachable_inv[OF assms(1)] obtain css where "table_inv s table css" by blast
  from insert_keys_inv[OF this assms(2)] obtain css' where
    "table_inv s' table css'" "k \<in> set (cell_values (css' ! unat (hash char_signed k)))"
    using assms(3) by blast
  from table_find_present[OF this] show ?thesis by blast
qed

theorem find_after_insert_witness:
  "reachable True example_heap example_table \<and>
   (\<exists>s'. insert_keys True example_heap example_table [''alice'', ''bob''] = Some s' \<and>
      (\<exists>entry. table_find True s' example_table ''alice'' = Some (Some entry) \<and>
               node_string s' entry = Some ''alice''))"
proof -
  have r: "reachable True example_heap example_table" by (rule example_reachable)
  have "''alice'' \<noteq> SENTINEL" by (simp add: SENTINEL_def)
  from table_insert_succeeds[OF example_inv this example_avail, of True]
  obtain s1 where s1: "table_insert True example_heap example_table ''alice'' = Some (Success, s1)"
    by blast
  from table_insert_cases[OF example_inv s1] obtain css1 where
    inv1: "table_inv s1 example_table css1" and av1: "avail s1 = [7, 8]"
    using example_avail by auto
  have "''bob'' \<noteq> SENTINEL" by (simp add: SENTINEL_def)
  from table_insert_succeeds[OF inv1 this av1, of True]
  obtain s2 where s2: "table_insert True s1 example_table ''bob'' = Some (Success, s2)"
    by blast
  have ik: "insert_keys True example_heap example_table [''alice'', ''bob''] = Some s2"
    using s1 s2 by simp
  have m: "''alice'' \<in> set [''alice'', ''bob'']" by simp
  show ?thesis
    using find_after_insert[OF r ik m] r ik by blast
qed

subsection \<open>Find after removal\<close>

lemma table_list_values:
  "table_inv s t css \<Longrightarrow> i < TABLE_SIZE \<Longrightarrow> list_values s (t ! i) = Some (cell_values (css ! i))"
  using table_inv_bucket[of s t css i] by (simp add: list_values_bucket)

lemma table_remove_present:
  assumes inv: "table_inv s t css" and k: "k \<in> set (cell_values (css ! unat (hash cs k)))"
  shows "\<exists>pre e b post s'.
            css ! unat (hash cs k) = pre @ (e, b, k) # post \<and> k \<notin> set (cell_values pre) \<and>
            table_find cs s t k = Some (Some e) \<and>
            table_remove cs s t k = Some (Success, s') \<and>
            avail s' = avail s @ [b, e] \<and> dom (mem s') = dom (mem s) - {e, b} \<and>
            e \<notin> set (cell_addrs (pre @ post)) \<and>
            table_inv s' t (css[unat (hash cs k) := pre @ post])"
proof -
  let ?i = "unat (hash cs k)"
  have "\<exists>pre e b post s'.
            css ! ?i = pre @ (e, b, k) # post \<and> k \<notin> set (cell_values pre) \<and>
            table_find cs s t k = Some (Some e) \<and>
            table_remove cs s t k = Some (Success, s') \<and>
            avail s' = avail s @ [b, e] \<and> dom (mem s') = dom (mem s) - {e, b} \<and>
            table_inv s' t (css[?i := pre @ post])"
  proof (rule disjE[OF table_remove_cases[OF inv, of k cs]])
    assume "k \<notin> set (cell_values (css ! ?i)) \<and> table_remove cs s t k = Some (Failure NotFound, s)"
    then show ?thesis using k by simp
  qed
  then obtain pre e b post s' where
    r: "css ! ?i = pre @ (e, b, k) # post" "k \<notin> set (cell_values pre)"
       "table_find cs s t k = Some (Some e)" "table_remove cs s t k = Some (Success, s')"
       "avail s' = avail s @ [b, e]" "dom (mem s') = dom (mem s) - {e, b}"
       "table_inv s' t (css[?i := pre @ post])"
    by (elim exE conjE)
  have "distinct (cell_addrs (pre @ (e, b, k) # post))"
    using table_inv_distinct[OF inv hash_index, of cs k] r(1) by simp
  then have "e \<notin> set (cell_addrs (pre @ post))"
    by (auto simp: cell_addrs_append cell_addrs_Cons)
  then show ?thesis using r by blast
qed

lemma remove_then_find_inv:
  assumes inv: "table_inv s t css" and f: "table_find cs s t k = Some (Some e)"
  shows "\<exists>s' css'. table_remove cs s t k = Some (Success, s') \<and> table_inv s' t css' \<and>
           e \<notin> dom (mem s') \<and>
           cell_values (css' ! unat (hash cs k)) = remove1 k (cell_values (css ! unat (hash cs k))) \<and>
           (if k \<in> set (cell_values (css' ! unat (hash cs k)))
            then \<exists>e'. table_find cs s' t k = Some (Some e') \<and> e' \<noteq> e \<and> node_string s' e' = Some k
            else table_find cs s' t k = Some None)"
proof -
  let ?i = "unat (hash cs k)"
  have i: "?i < length css" using table_inv_length[OF inv] hash_index[of cs k] by simp
  have "k \<in> set (cell_values (css ! ?i))"
    using f table_find_absent[OF inv, of k cs] by auto
  from table_remove_present[OF inv this] f obtain pre b post s' where
    r: "css ! ?i = pre @ (e, b, k) # post" "k \<notin> set (cell_values pre)"
       "table_remove cs s t k = Some (Success, s')"
       "dom (mem s') = dom (mem s) - {e, b}"
       "e \<notin> set (cell_addrs (pre @ post))"
       "table_inv s' t (css[?i := pre @ post])"
    by auto
  let ?css' = "css[?i := pre @ post]"
  have v: "cell_values (?css' ! ?i) = remove1 k (cell_values (css ! ?i))"
    using i r(1,2) by (simp add: cell_values_append cell_values_Cons remove1_append)
  have "\<exists>e'. table_find cs s' t k = Some (Some e') \<and> e' \<noteq> e \<and> node_string s' e' = Some k"
    if "k \<in> set (cell_values (?css' ! ?i))"
  proof -
    from table_find_present[OF r(6) that] obtain e' b' where
      e': "table_find cs s' t k = Some (Some e')" "(e', b', k) \<in> set (?css' ! ?i)"
      "node_string s' e' = Some k" by blast
    have "e' \<in> set (cell_addrs (pre @ post))" using e'(2) i cell_addrs_mem by simp
    then show ?thesis using e' r(5) by auto
  qed
  moreover have "table_find cs s' t k = Some None" if "k \<notin> set (cell_values (?css' ! ?i))"
    using table_find_absent[OF r(6) that] .
  ultimately show ?thesis using r(3,4,6) v by (intro exI[of _ s'] exI[of _ ?css']) auto
qed

lemma table_insert_values:
  assumes inv: "table_inv s t css" and ins: "table_insert cs s t k = Some (Success, s')"
  shows "\<exists>css'. table_inv s' t css' \<and>
           cell_values (css' ! unat (hash cs k)) = k # cell_values (css ! unat (hash cs k))"
proof -
  let ?i = "unat (hash cs k)"
  have i: "?i < length css" using table_inv_length[OF inv] hash_index[of cs k] by simp
  from table_insert_cases[OF inv ins] obtain a b where
    "table_inv s' t (css[?i := (a, b, k) # css ! ?i])" by auto
  then show ?thesis using i by (intro exI[of _ "css[?i := (a, b, k) # css ! ?i]"]) (simp add: cell_values_Cons)
qed

lemma find_Some_present:
  assumes inv: "table_inv s t css" and k: "k \<in> set (cell_values (css ! unat (hash cs k)))"
  shows "\<exists>e. table_find cs s t k = Some (Some e)"
  using table_find_present[OF inv k] by blast

text \<open>
  Claim C3. If \<open>find\<close> locates a node for key \<open>k\<close>, then removing that node succeeds and
  releases it, the bucket's values lose exactly the first \<open>k\<close>, and a subsequent \<open>find\<close>
  for \<open>k\<close> returns "not found", unless another node with value \<open>k\<close> remains in the bucket,
  in which case it returns such a node (a different one). In particular: if \<open>k\<close> is not
  in the table and is inserted twice, \<open>find\<close> succeeds, after one remove \<open>find\<close> still
  succeeds, and after a second remove \<open>find\<close> fails.
\<close>

theorem remove_then_find:
  "(reachable char_signed s table \<and> table_find char_signed s table k = Some (Some entry) \<longrightarrow>
      (\<exists>s' vs.
          table_remove char_signed s table k = Some (Success, s') \<and>
          entry \<notin> dom (mem s') \<and>
          list_values s (table ! unat (hash char_signed k)) = Some vs \<and>
          list_values s' (table ! unat (hash char_signed k)) = Some (remove1 k vs) \<and>
          (if k \<in> set (remove1 k vs)
           then \<exists>entry'. table_find char_signed s' table k = Some (Some entry') \<and>
                         entry' \<noteq> entry \<and> node_string s' entry' = Some k
           else table_find char_signed s' table k = Some None))) \<and>
   (reachable char_signed s0 table \<and> table_find char_signed s0 table k = Some None \<and>
    table_insert char_signed s0 table k = Some (Success, s1) \<and>
    table_insert char_signed s1 table k = Some (Success, s2) \<longrightarrow>
      (\<exists>e1 s3 e2 s4.
          table_find char_signed s2 table k = Some (Some e1) \<and>
          table_remove char_signed s2 table k = Some (Success, s3) \<and>
          table_find char_signed s3 table k = Some (Some e2) \<and>
          table_remove char_signed s3 table k = Some (Success, s4) \<and>
          table_find char_signed s4 table k = Some None))"
proof (intro conjI impI)
  let ?i = "unat (hash char_signed k)"
  assume a: "reachable char_signed s table \<and> table_find char_signed s table k = Some (Some entry)"
  from reachable_inv a obtain css where inv: "table_inv s table css" by blast
  from remove_then_find_inv[OF inv conjunct2[OF a]] obtain s' css' where
    r: "table_remove char_signed s table k = Some (Success, s')" "table_inv s' table css'"
       "entry \<notin> dom (mem s')"
       "cell_values (css' ! ?i) = remove1 k (cell_values (css ! ?i))"
       "if k \<in> set (cell_values (css' ! ?i))
        then \<exists>e'. table_find char_signed s' table k = Some (Some e') \<and> e' \<noteq> entry \<and>
                  node_string s' e' = Some k
        else table_find char_signed s' table k = Some None"
    by blast
  have "list_values s (table ! ?i) = Some (cell_values (css ! ?i))"
    using inv hash_index by (rule table_list_values)
  moreover have "list_values s' (table ! ?i) = Some (remove1 k (cell_values (css ! ?i)))"
    using table_list_values[OF r(2) hash_index, of char_signed k] r(4) by simp
  ultimately show "\<exists>s' vs.
          table_remove char_signed s table k = Some (Success, s') \<and>
          entry \<notin> dom (mem s') \<and>
          list_values s (table ! ?i) = Some vs \<and>
          list_values s' (table ! ?i) = Some (remove1 k vs) \<and>
          (if k \<in> set (remove1 k vs)
           then \<exists>entry'. table_find char_signed s' table k = Some (Some entry') \<and>
                         entry' \<noteq> entry \<and> node_string s' entry' = Some k
           else table_find char_signed s' table k = Some None)"
    using r(1,3,5) unfolding r(4) by (intro exI[of _ s'] exI[of _ "cell_values (css ! ?i)"]) simp
next
  let ?i = "unat (hash char_signed k)"
  assume a: "reachable char_signed s0 table \<and> table_find char_signed s0 table k = Some None \<and>
    table_insert char_signed s0 table k = Some (Success, s1) \<and>
    table_insert char_signed s1 table k = Some (Success, s2)"
  from reachable_inv a obtain css0 where inv0: "table_inv s0 table css0" by blast
  have k0: "k \<notin> set (cell_values (css0 ! ?i))"
    using a find_Some_present[OF inv0, of k char_signed] by auto
  from table_insert_values[OF inv0] a obtain css1 where
    inv1: "table_inv s1 table css1" and v1: "cell_values (css1 ! ?i) = k # cell_values (css0 ! ?i)"
    by blast
  from table_insert_values[OF inv1] a obtain css2 where
    inv2: "table_inv s2 table css2" and v2: "cell_values (css2 ! ?i) = k # cell_values (css1 ! ?i)"
    by blast
  obtain e1 where e1: "table_find char_signed s2 table k = Some (Some e1)"
    using find_Some_present[OF inv2, of k char_signed] v2 by auto
  from remove_then_find_inv[OF inv2 e1] obtain s3 css3 where
    r3: "table_remove char_signed s2 table k = Some (Success, s3)" "table_inv s3 table css3"
        "cell_values (css3 ! ?i) = remove1 k (cell_values (css2 ! ?i))"
    by blast
  have v3: "cell_values (css3 ! ?i) = k # cell_values (css0 ! ?i)" using r3(3) v2 v1 by simp
  obtain e2 where e2: "table_find char_signed s3 table k = Some (Some e2)"
    using find_Some_present[OF r3(2), of k char_signed] v3 by auto
  from remove_then_find_inv[OF r3(2) e2] obtain s4 css4 where
    r4: "table_remove char_signed s3 table k = Some (Success, s4)" "table_inv s4 table css4"
        "cell_values (css4 ! ?i) = remove1 k (cell_values (css3 ! ?i))"
    by blast
  have "cell_values (css4 ! ?i) = cell_values (css0 ! ?i)" using r4(3) v3 by simp
  then have "table_find char_signed s4 table k = Some None"
    using table_find_absent[OF r4(2), of k char_signed] k0 by simp
  then show "\<exists>e1 s3 e2 s4.
          table_find char_signed s2 table k = Some (Some e1) \<and>
          table_remove char_signed s2 table k = Some (Success, s3) \<and>
          table_find char_signed s3 table k = Some (Some e2) \<and>
          table_remove char_signed s3 table k = Some (Success, s4) \<and>
          table_find char_signed s4 table k = Some None"
    using e1 r3(1) e2 r4(1) by blast
qed

subsection \<open>Absent keys and the other buckets\<close>

theorem remove_then_find_witness:
  "reachable True example_heap example_table \<and>
   table_find True example_heap example_table ''dup'' = Some None \<and>
   (\<exists>s1 s2.
      table_insert True example_heap example_table ''dup'' = Some (Success, s1) \<and>
      table_insert True s1 example_table ''dup'' = Some (Success, s2) \<and>
      reachable True s2 example_table \<and>
      (\<exists>e1 s3 e2 s4.
          table_find True s2 example_table ''dup'' = Some (Some e1) \<and>
          table_remove True s2 example_table ''dup'' = Some (Success, s3) \<and>
          e1 \<notin> dom (mem s3) \<and>
          table_find True s3 example_table ''dup'' = Some (Some e2) \<and>
          table_remove True s3 example_table ''dup'' = Some (Success, s4) \<and>
          table_find True s4 example_table ''dup'' = Some None))"
proof -
  have r0: "reachable True example_heap example_table" by (rule example_reachable)
  have "''dup'' \<notin> set (cell_values (replicate TABLE_SIZE [] ! unat (hash True ''dup'')))"
    using hash_index[of True "''dup''"] by (simp add: cell_values_def)
  from table_find_absent[OF example_inv this]
  have f0: "table_find True example_heap example_table ''dup'' = Some None" .
  have ns: "''dup'' \<noteq> SENTINEL" by (simp add: SENTINEL_def)
  from table_insert_succeeds[OF example_inv ns example_avail, of True]
  obtain s1 where s1: "table_insert True example_heap example_table ''dup'' = Some (Success, s1)"
    by blast
  from table_insert_cases[OF example_inv s1] obtain css1 where
    inv1: "table_inv s1 example_table css1" and av1: "avail s1 = [7, 8]"
    using example_avail by auto
  from table_insert_succeeds[OF inv1 ns av1, of True]
  obtain s2 where s2: "table_insert True s1 example_table ''dup'' = Some (Success, s2)"
    by blast
  have r2: "reachable True s2 example_table"
    using r0 s1 s2 by (blast intro: reachable.inserted)
  from remove_then_find[of True s2 example_table "''dup''" _ example_heap s1 s2] r0 f0 s1 s2
  obtain e1 s3 e2 s4 where sc:
    "table_find True s2 example_table ''dup'' = Some (Some e1)"
    "table_remove True s2 example_table ''dup'' = Some (Success, s3)"
    "table_find True s3 example_table ''dup'' = Some (Some e2)"
    "table_remove True s3 example_table ''dup'' = Some (Success, s4)"
    "table_find True s4 example_table ''dup'' = Some None"
    by blast
  from remove_then_find[of True s2 example_table "''dup''" e1 example_heap s1 s2] r2 sc(1,2)
  have "e1 \<notin> dom (mem s3)" by auto
  then show ?thesis using r0 f0 s1 s2 r2 sc by blast
qed

text \<open>
  Claim C7. In every state the program can reach, if key \<open>k\<close> is in no bucket of the
  table, then the removal of \<open>k\<close> through the table (find in bucket \<open>hash(k)\<close>, remove if
  found) finds nothing, reports "not found", and leaves the heap, hence every bucket,
  exactly as it was.
\<close>

theorem remove_absent:
  assumes "reachable char_signed s table"
      and "\<forall>i < TABLE_SIZE. \<forall>vs. list_values s (table ! i) = Some vs \<longrightarrow> k \<notin> set vs"
  shows "table_find char_signed s table k = Some None \<and>
         table_remove char_signed s table k = Some (Failure NotFound, s)"
proof -
  let ?i = "unat (hash char_signed k)"
  from reachable_inv[OF assms(1)] obtain css where inv: "table_inv s table css" by blast
  have "list_values s (table ! ?i) = Some (cell_values (css ! ?i))"
    using inv hash_index by (rule table_list_values)
  then have "k \<notin> set (cell_values (css ! ?i))"
    using assms(2) hash_index[of char_signed k] by blast
  from table_find_absent[OF inv this] show ?thesis
    by (simp add: table_remove_def)
qed

lemma example_list_values: "i < TABLE_SIZE \<Longrightarrow> list_values example_heap (example_table ! i) = Some []"
  using table_list_values[OF example_inv, of i] by (simp add: cell_values_def)

theorem remove_absent_witness:
  "reachable True example_heap example_table \<and>
   map (list_values example_heap) example_table = [Some [], Some [], Some [], Some [], Some []] \<and>
   table_find True example_heap example_table ''zed'' = Some None \<and>
   table_remove True example_heap example_table ''zed'' = Some (Failure NotFound, example_heap)"
proof -
  have r: "reachable True example_heap example_table" by (rule example_reachable)
  have a: "\<forall>i < TABLE_SIZE. \<forall>vs. list_values example_heap (example_table ! i) = Some vs \<longrightarrow> ''zed'' \<notin> set vs"
    using example_list_values by auto
  have "list_values example_heap (example_table ! i) = Some []" if "i < 5" for i
    using example_list_values[of i] that by (simp add: TABLE_SIZE_def)
  from this[of 0] this[of 1] this[of 2] this[of 3] this[of 4]
  have m: "map (list_values example_heap) example_table = [Some [], Some [], Some [], Some [], Some []]"
    by (simp add: example_table_def)
  show ?thesis using remove_absent[OF r a] r m by blast
qed

lemma chain_mem_eq:
  "chain s pr cs \<Longrightarrow> chain s' pr cs \<Longrightarrow> x \<in> set (cell_addrs cs) \<Longrightarrow> mem s' x = mem s x"
proof (induction cs arbitrary: pr)
  case Nil
  then show ?case by (simp add: cell_addrs_Nil)
next
  case (Cons c cs)
  obtain a b w where c: "c = (a, b, w)" by (cases c)
  show ?case
  proof (cases "x = a \<or> x = b")
    case True
    then show ?thesis using Cons.prems(1,2) by (auto simp: c)
  next
    case False
    then have "x \<in> set (cell_addrs cs)" using Cons.prems(3) by (simp add: c cell_addrs_Cons)
    moreover have "chain s (Some a) cs" "chain s' (Some a) cs" using Cons.prems(1,2) by (simp_all add: c)
    ultimately show ?thesis using Cons.IH by blast
  qed
qed

lemma bucket_mem_eq:
  assumes "bucket s h cs" and "bucket s' h cs" and "x \<in> set (h # cell_addrs cs)"
  shows "mem s' x = mem s x"
proof (cases "x = h")
  case True
  then show ?thesis using assms(1,2) by (simp add: bucket_def)
next
  case False
  then show ?thesis
    using assms chain_mem_eq[of s "Some h" cs s' x] by (simp add: bucket_def)
qed

lemma bucket_nodes_eq:
  assumes b: "bucket s h cs" and b': "bucket s' h cs"
  shows "list_nodes s' h = list_nodes s h \<and> list_values s' h = list_values s h \<and>
         (\<forall>ns. list_nodes s h = Some ns \<longrightarrow>
            (\<forall>a \<in> set ns. load_node s' a = load_node s a \<and> node_string s' a = node_string s a))"
proof -
  have ln: "list_nodes s h = Some (h # map fst cs)" "list_nodes s' h = Some (h # map fst cs)"
    using b b' by (simp_all add: list_nodes_bucket)
  have lv: "list_values s' h = list_values s h" using b b' by (simp add: list_values_bucket)
  have "load_node s' a = load_node s a \<and> node_string s' a = node_string s a"
    if "a \<in> set (h # map fst cs)" for a
  proof (cases "a = h")
    case True
    then show ?thesis
      using bucket_mem_eq[OF b b', of h] bucket_head_string[OF b] bucket_head_string[OF b']
      by (simp add: load_node_def)
  next
    case False
    then have "a \<in> fst ` set cs" using that by simp
    then obtain bb v where m: "(a, bb, v) \<in> set cs" by force
    then have "a \<in> set (h # cell_addrs cs)" using cell_addrs_mem by simp
    from bucket_mem_eq[OF b b' this] have "load_node s' a = load_node s a"
      by (simp add: load_node_def)
    moreover have "node_string s a = Some v" "node_string s' a = Some v"
      using chain_node_string[of s "Some h" cs a bb v] chain_node_string[of s' "Some h" cs a bb v]
        m b b' by (simp_all add: bucket_def)
    ultimately show ?thesis by simp
  qed
  then show ?thesis using ln lv by simp
qed

lemma table_step_other_bucket:
  assumes inv: "table_inv s t css"
      and step: "table_insert cs s t k = Some (r, s') \<or> table_remove cs s t k = Some (r, s')"
      and j: "j < TABLE_SIZE" "j \<noteq> unat (hash cs k)"
  shows "bucket s' (t ! j) (css ! j)"
proof -
  let ?i = "unat (hash cs k)"
  have bj: "bucket s (t ! j) (css ! j)" using inv j(1) by (rule table_inv_bucket)
  have upd: "bucket s' (t ! j) (css ! j)" if "table_inv s' t (css[?i := cs'])" for cs'
    using table_inv_bucket[OF that j(1)] j(2) by simp
  from step show ?thesis
  proof
    assume ins: "table_insert cs s t k = Some (r, s')"
    from table_insert_cases[OF inv ins] show ?thesis
      using bj upd by auto
  next
    assume rm: "table_remove cs s t k = Some (r, s')"
    show ?thesis
    proof (rule disjE[OF table_remove_cases[OF inv, of k cs]])
      assume "k \<notin> set (cell_values (css ! ?i)) \<and> table_remove cs s t k = Some (Failure NotFound, s)"
      then have "s' = s" using rm by simp
      then show ?thesis using bj by simp
    next
      assume "\<exists>pre e b post s'.
            css ! ?i = pre @ (e, b, k) # post \<and> k \<notin> set (cell_values pre) \<and>
            table_find cs s t k = Some (Some e) \<and>
            table_remove cs s t k = Some (Success, s') \<and>
            avail s' = avail s @ [b, e] \<and> dom (mem s') = dom (mem s) - {e, b} \<and>
            table_inv s' t (css[?i := pre @ post])"
      then obtain pre post s'' where "table_remove cs s t k = Some (Success, s'')"
        "table_inv s'' t (css[?i := pre @ post])"
        by (elim exE conjE)
      then show ?thesis using rm upd by simp
    qed
  qed
qed

text \<open>
  Claim C8. In every state the program can reach, every value stored in bucket \<open>i\<close>
  hashes to \<open>i\<close>, so no key is in a bucket other than its own; and an insert or remove
  of key \<open>k\<close> through the table leaves every bucket other than \<open>hash(k)\<close> as it was: the
  same nodes in the same order, with the same contents and the same values.
\<close>

theorem table_frame:
  assumes "reachable char_signed s table"
  shows "(\<forall>i < TABLE_SIZE. \<forall>vs. list_values s (table ! i) = Some vs \<longrightarrow>
            (\<forall>v \<in> set vs. unat (hash char_signed v) = i)) \<and>
         (\<forall>r s' j.
            (table_insert char_signed s table k = Some (r, s') \<or>
             table_remove char_signed s table k = Some (r, s')) \<longrightarrow>
            j < TABLE_SIZE \<longrightarrow> j \<noteq> unat (hash char_signed k) \<longrightarrow>
              list_nodes s' (table ! j) = list_nodes s (table ! j) \<and>
              list_values s' (table ! j) = list_values s (table ! j) \<and>
              (\<forall>ns. list_nodes s (table ! j) = Some ns \<longrightarrow>
                 (\<forall>a \<in> set ns. load_node s' a = load_node s a \<and>
                                node_string s' a = node_string s a)))"
proof -
  from reachable_inv[OF assms] obtain css where inv: "table_inv s table css"
    and kp: "keys_placed char_signed css" by blast
  have len: "length css = TABLE_SIZE" using table_inv_length[OF inv] by simp
  have "\<forall>v \<in> set vs. unat (hash char_signed v) = i"
    if "i < TABLE_SIZE" "list_values s (table ! i) = Some vs" for i vs
    using kp that table_list_values[OF inv that(1)] len by (auto simp: keys_placed_iff)
  moreover have "list_nodes s' (table ! j) = list_nodes s (table ! j) \<and>
              list_values s' (table ! j) = list_values s (table ! j) \<and>
              (\<forall>ns. list_nodes s (table ! j) = Some ns \<longrightarrow>
                 (\<forall>a \<in> set ns. load_node s' a = load_node s a \<and>
                                node_string s' a = node_string s a))"
    if "table_insert char_signed s table k = Some (r, s') \<or>
        table_remove char_signed s table k = Some (r, s')"
       "j < TABLE_SIZE" "j \<noteq> unat (hash char_signed k)" for r s' j
    using bucket_nodes_eq[OF table_inv_bucket[OF inv that(2)] table_step_other_bucket[OF inv that]] .
  ultimately show ?thesis by blast
qed

theorem table_frame_witness:
  "reachable True example_heap example_table \<and>
   unat (hash True ''bob'') = 0 \<and> (1::nat) < TABLE_SIZE \<and>
   (\<exists>s'. table_insert True example_heap example_table ''bob'' = Some (Success, s') \<and>
      list_values s' (example_table ! 1) = Some [] \<and>
      list_nodes s' (example_table ! 1) = list_nodes example_heap (example_table ! 1) \<and>
      reachable True s' example_table \<and>
      list_values s' (example_table ! 0) = Some [''bob''])"
proof -
  have r: "reachable True example_heap example_table" by (rule example_reachable)
  have j: "(1::nat) < TABLE_SIZE" and i: "(0::nat) < TABLE_SIZE" by (simp_all add: TABLE_SIZE_def)
  have "''bob'' \<noteq> SENTINEL" by (simp add: SENTINEL_def)
  from table_insert_succeeds[OF example_inv this example_avail, of True]
  obtain s' where s': "table_insert True example_heap example_table ''bob'' = Some (Success, s')"
    by blast
  have "list_nodes s' (example_table ! 1) = list_nodes example_heap (example_table ! 1) \<and>
        list_values s' (example_table ! 1) = list_values example_heap (example_table ! 1)"
    using table_frame[OF r, of "''bob''"] s' j hash_bob by (metis zero_neq_one)
  moreover have r': "reachable True s' example_table"
    using r s' by (rule reachable.inserted)
  moreover from table_insert_values[OF example_inv s'] obtain css' where
    "table_inv s' example_table css'" "cell_values (css' ! 0) = [''bob'']"
    using hash_bob i by (auto simp: cell_values_def)
  then have lv: "list_values s' (example_table ! 0) = Some [''bob'']"
    using table_list_values[of s' example_table css' 0] i by simp
  moreover have "\<forall>v \<in> set [''bob'']. unat (hash True v) = 0"
    using table_frame[OF r', of "''bob''"] lv i by blast
  ultimately show ?thesis using r hash_bob j s' example_list_values[OF j] by auto
qed

section \<open>Properties of the plain doubly-linked list\<close>

lemma dll_example_0_eq:
  "dll_example_0 = \<lparr>dll_mem = [0 \<mapsto> \<lparr>dll_value = dll_SENTINEL, dll_prev = None, dll_next = None\<rparr>],
                     dll_avail = [1, 2]\<rparr>"
  by (simp add: dll_example_0_def dll_create_list_def dll_malloc_def dll_store_def)

lemma dll_example_1_eq:
  "dll_insert_entry dll_example_0 0 7 = Some (True,
     \<lparr>dll_mem = [0 \<mapsto> \<lparr>dll_value = dll_SENTINEL, dll_prev = None, dll_next = Some 1\<rparr>,
                  1 \<mapsto> \<lparr>dll_value = 7, dll_prev = Some 0, dll_next = None\<rparr>],
       dll_avail = [2]\<rparr>)"
  by (auto simp: dll_example_0_eq dll_insert_entry_def dll_malloc_def dll_store_def
      dll_SENTINEL_def INT_MAX_def)

lemma dll_store_dom:
  "a \<in> dom (dll_mem h) \<Longrightarrow> dom (dll_mem (dll_store h a n)) = dom (dll_mem h)"
  by (auto simp: dll_store_def)

lemma dll_store_avail: "dll_avail (dll_store h a n) = dll_avail h"
  by (simp add: dll_store_def)

lemma dll_remove_entry_never_frees:
  assumes "dll_remove_entry s entry = Some (r, s')"
  shows "dom (dll_mem s') = dom (dll_mem s) \<and> dll_avail s' = dll_avail s"
proof (cases "dll_mem s entry")
  case None
  then show ?thesis using assms by (simp add: dll_remove_entry_def)
next
  case (Some e)
  show ?thesis
  proof (cases "dll_value e = dll_SENTINEL")
    case True
    then show ?thesis using assms Some by (simp add: dll_remove_entry_def)
  next
    case False
    from assms Some False obtain p pn where p: "dll_prev e = Some p" "dll_mem s p = Some pn"
      by (auto simp: dll_remove_entry_def split: bind_splits)
    let ?s1 = "dll_store s p (pn\<lparr>dll_next := dll_next e\<rparr>)"
    have s1: "dom (dll_mem ?s1) = dom (dll_mem s)" "dll_avail ?s1 = dll_avail s"
      using p(2) by (simp_all add: dll_store_dom dll_store_avail domI)
    from assms Some False p obtain e1 where e1: "dll_mem ?s1 entry = Some e1"
      by (auto simp: dll_remove_entry_def Let_def split: bind_splits)
    show ?thesis
    proof (cases "dll_next e1")
      case None
      then have "s' = ?s1"
        using assms Some False p e1 by (simp add: dll_remove_entry_def Let_def dll_free_def)
      then show ?thesis using s1 by simp
    next
      case (Some n)
      from assms \<open>dll_mem s entry = Some e\<close> False p e1 Some obtain m where
        m: "dll_mem ?s1 n = Some m" "s' = dll_store ?s1 n (m\<lparr>dll_prev := dll_prev e1\<rparr>)"
        by (auto simp: dll_remove_entry_def Let_def dll_free_def split: bind_splits)
      have "dom (dll_mem (dll_store ?s1 n (m\<lparr>dll_prev := dll_prev e1\<rparr>))) = dom (dll_mem ?s1)"
        using m(1) by (intro dll_store_dom) (rule domI)
      then show ?thesis using s1 m(2) by (simp add: dll_store_avail)
    qed
  qed
qed

text \<open>
  The remove path of \<open>hash_table.c\<close>: on a well-formed list, \<open>remove_entry\<close> of a node
  other than the sentinel succeeds, splices the list, and releases exactly two blocks,
  the node and its string, each of them live before and each handed back once.
\<close>

lemma remove_entry_releases_once:
  assumes "list_inv s h (pre @ (e, b, v) # post)"
  shows "\<exists>s'. remove_entry s e = Some (Success, s') \<and> bucket s' h (pre @ post) \<and>
           dom (mem s') = dom (mem s) - {e, b} \<and> avail s' = avail s @ [b, e] \<and>
           e \<in> dom (mem s) \<and> b \<in> dom (mem s) \<and> e \<noteq> b"
proof -
  have bk: "bucket s h (pre @ (e, b, v) # post)"
    and d: "distinct (h # cell_addrs (pre @ (e, b, v) # post))"
    using assms by (simp_all add: list_inv_def)
  have "e \<in> set (cell_addrs (pre @ (e, b, v) # post))" "b \<in> set (cell_addrs (pre @ (e, b, v) # post))"
    by (simp_all add: cell_addrs_append cell_addrs_Cons)
  then have "e \<in> dom (mem s)" "b \<in> dom (mem s)"
    using chain_dom[of s "Some h" "pre @ (e, b, v) # post"] bk by (auto simp: bucket_def)
  moreover have "e \<noteq> b" using d by (auto simp: cell_addrs_append cell_addrs_Cons)
  ultimately show ?thesis using remove_entry_bucket[OF bk d] by blast
qed

text \<open>
  Claim C9 says that a successful remove releases the node exactly once, in the plain
  doubly-linked list too. The code of \<open>doubly-linked-list.c\<close> does not: after
  \<open>create_list\<close>, \<open>insert_entry(head, 7)\<close> and \<open>find_entry(head, 7)\<close>, the call
  \<open>remove_entry(entry)\<close> returns \<open>true\<close> and unlinks the node, so that \<open>find_entry\<close> no
  longer reaches it, but the node is still allocated and nothing was given back to the
  allocator: \<open>entry\<close> is set to \<open>NULL\<close> before \<open>free(entry)\<close>.
\<close>

theorem dll_remove_entry_leaks:
  "dll_insert_entry dll_example_0 0 7 = Some (True, dll_example_1) \<and>
   dll_find_entry dll_example_1 (Some 0) 7 = Some (Some 1) \<and>
   (\<exists>s'. dll_remove_entry dll_example_1 1 = Some (True, s') \<and>
      dll_find_entry s' (Some 0) 7 = Some None \<and>
      1 \<in> dom (dll_mem s') \<and> dll_avail s' = dll_avail dll_example_1)"
proof -
  have e1: "dll_example_1 =
     \<lparr>dll_mem = [0 \<mapsto> \<lparr>dll_value = dll_SENTINEL, dll_prev = None, dll_next = Some 1\<rparr>,
                  1 \<mapsto> \<lparr>dll_value = 7, dll_prev = Some 0, dll_next = None\<rparr>],
       dll_avail = [2]\<rparr>"
    by (simp add: dll_example_1_def dll_example_1_eq)
  have f: "dll_find_entry dll_example_1 (Some 0) 7 = Some (Some 1)"
    by (simp add: e1 dll_find_entry_def dll_find_loop.simps dll_SENTINEL_def INT_MAX_def)
  have r: "dll_remove_entry dll_example_1 1 = Some (True,
     \<lparr>dll_mem = [0 \<mapsto> \<lparr>dll_value = dll_SENTINEL, dll_prev = None, dll_next = None\<rparr>,
                  1 \<mapsto> \<lparr>dll_value = 7, dll_prev = Some 0, dll_next = None\<rparr>],
       dll_avail = [2]\<rparr>)"
    by (auto simp: e1 dll_remove_entry_def dll_store_def dll_free_def dll_SENTINEL_def INT_MAX_def)
  have f': "dll_find_entry \<lparr>dll_mem = [0 \<mapsto> \<lparr>dll_value = dll_SENTINEL, dll_prev = None, dll_next = None\<rparr>,
                  1 \<mapsto> \<lparr>dll_value = 7, dll_prev = Some 0, dll_next = None\<rparr>],
       dll_avail = [2]\<rparr> (Some 0) 7 = Some None"
    by (simp add: dll_find_entry_def dll_find_loop.simps dll_SENTINEL_def INT_MAX_def)
  show ?thesis
    using dll_example_1_eq f r f' by (simp add: e1)
qed

end
